theory Spec2Isabelle
  imports Complex_Main "HOL-Library.Sublist"
begin

section \<open>Python strings, errors and the list operations the scripts use\<close>

text \<open>
  A Python \<open>str\<close> is a sequence of Unicode code points, so it is modelled as a list of
  natural numbers (the code points); \<open>u\<close> turns an ASCII literal into that form.
  \<open>x in s\<close> on strings is \<open>sublist x s\<close>.
\<close>

type_synonym ustr = "nat list"

definition u :: "string \<Rightarrow> ustr" where
  "u s = map of_char s"

text \<open>The exceptions the modelled code can meet, as values.\<close>

datatype py_error = ValueError | IndexError | FileNotFoundError | OtherError

definition and_then :: "'e + 'a \<Rightarrow> ('a \<Rightarrow> 'e + 'b) \<Rightarrow> 'e + 'b" where
  "and_then m f = (case m of Inl e \<Rightarrow> Inl e | Inr x \<Rightarrow> f x)"

text \<open>
  \<open>s.split(sep)\<close>: the pieces between the occurrences of \<open>sep\<close>, found from the left
  without overlap. An empty separator raises \<open>ValueError\<close>.
\<close>

function split_on :: "ustr \<Rightarrow> ustr \<Rightarrow> ustr list" where
  "split_on sep [] = [[]]"
| "split_on sep (x # xs) =
     (if sep \<noteq> [] \<and> prefix sep (x # xs) then [] # split_on sep (drop (length sep) (x # xs))
      else (let r = split_on sep xs in (x # hd r) # tl r))"
  by pat_completeness auto
termination
  by (relation "measure (\<lambda>(sep, s). length s)") auto



section \<open>youtube\_duration\_calculator.py: \<open>extract_video_id\<close>\<close>



subsection \<open>Facts about splitting\<close>

lemma split_on_ne: "split_on sep s \<noteq> []"
  by (induction sep s rule: split_on.induct) (auto simp: Let_def)



























section \<open>youtube\_duration\_calculator.py: the duration aggregator\<close>

text \<open>
  \<open>str(n)\<close> for an integer, as the f-strings of both scripts format their numbers.
\<close>

fun digits_of :: "nat \<Rightarrow> ustr" where
  "digits_of n = (if n < 10 then [48 + n] else digits_of (n div 10) @ [48 + n mod 10])"

declare digits_of.simps [simp del]

definition py_str_int :: "int \<Rightarrow> ustr" where
  "py_str_int i = (if i < 0 then 45 # digits_of (nat (- i)) else digits_of (nat i))"

text \<open>
  \<open>str.strip()\<close> removes the characters for which \<open>str.isspace\<close> holds from both ends.
\<close>

definition py_isspace :: "nat \<Rightarrow> bool" where
  "py_isspace c =
     ((9 \<le> c \<and> c \<le> 13) \<or> (28 \<le> c \<and> c \<le> 32) \<or> c = 133 \<or> c = 160 \<or> c = 5760
      \<or> (8192 \<le> c \<and> c \<le> 8202) \<or> c = 8232 \<or> c = 8233 \<or> c = 8239 \<or> c = 8287
      \<or> c = 12288)"

definition py_strip :: "ustr \<Rightarrow> ustr" where
  "py_strip s = rev (dropWhile py_isspace (rev (dropWhile py_isspace s)))"

text \<open>
  The lookup collaborator \<open>ydl.extract_info(url, download=False)\<close>: it raises (with a
  message) or returns the information dictionary, of which the code reads the keys
  \<open>duration\<close> and \<open>title\<close>; \<open>None\<close> stands for an absent key.
\<close>

record video_info =
  duration :: "int option"
  title :: "ustr option"

datatype ydl_result = Raised ustr | Info video_info

text \<open>What the script prints, one constructor for each \<open>print\<close> call, with the values it shows.\<close>

datatype out_line =
    Banner ustr
  | Rule
  | No_urls_found
  | Found_videos nat
  | Processing_url nat nat ustr
  | Fetched ustr ustr
  | Fetch_error ustr ustr
  | File_not_found ustr
  | Read_error ustr
  | Summary_header
  | Videos_processed int
  | Successfully_fetched int
  | Failed int
  | Total_duration ustr
  | Total_hours real

definition format_duration :: "int \<Rightarrow> ustr" where
  "format_duration seconds =
     (let hours = seconds div 3600;
          minutes = (seconds mod 3600) div 60;
          secs = seconds mod 60
      in if hours > 0 then
           py_str_int hours @ u ''h '' @ py_str_int minutes @ u ''m '' @ py_str_int secs @ u ''s''
         else if minutes > 0 then
           py_str_int minutes @ u ''m '' @ py_str_int secs @ u ''s''
         else py_str_int secs @ u ''s'')"

text \<open>
  \<open>get_video_duration\<close> returns the duration and prints one line; any exception of the
  lookup is caught and turned into the duration 0.
\<close>

definition get_video_duration :: "(ustr \<Rightarrow> ydl_result) \<Rightarrow> ustr \<Rightarrow> int \<times> out_line list" where
  "get_video_duration ydl url =
     (case ydl url of
        Info info \<Rightarrow>
          (let d = (case duration info of None \<Rightarrow> 0 | Some v \<Rightarrow> v);
               t = (case title info of None \<Rightarrow> u ''Unknown'' | Some v \<Rightarrow> v)
           in (d, [Fetched (take 50 t @ (if length t > 50 then u ''...'' else []))
                     (format_duration d)]))
      | Raised e \<Rightarrow> (0, [Fetch_error url (take 50 e)]))"

text \<open>The local variables of \<open>calculate_total_duration\<close>, and the lines printed so far.\<close>

record totals =
  total_seconds :: int
  video_count :: int
  successful_count :: int
  printed :: "out_line list"

text \<open>One iteration of the loop over \<open>enumerate(urls, 1)\<close>.\<close>

definition process_url :: "(ustr \<Rightarrow> ydl_result) \<Rightarrow> nat \<Rightarrow> nat \<Rightarrow> ustr \<Rightarrow> totals \<Rightarrow> totals" where
  "process_url ydl n i raw st =
     (let url = py_strip raw in
      if url = [] then st
      else
        (let st1 = st\<lparr>printed := printed st @
                      [Processing_url i n (take 60 url @ (if length url > 60 then u ''...'' else []))],
                    video_count := video_count st + 1\<rparr>;
             r = get_video_duration ydl url;
             st2 = st1\<lparr>printed := printed st1 @ snd r\<rparr>
         in if fst r > 0
            then st2\<lparr>total_seconds := total_seconds st2 + fst r,
                     successful_count := successful_count st2 + 1\<rparr>
            else st2))"

fun process_urls :: "(ustr \<Rightarrow> ydl_result) \<Rightarrow> nat \<Rightarrow> nat \<Rightarrow> ustr list \<Rightarrow> totals \<Rightarrow> totals" where
  "process_urls ydl n i [] st = st"
| "process_urls ydl n i (raw # rest) st = process_urls ydl n (i + 1) rest (process_url ydl n i raw st)"

text \<open>
  A row of \<open>csv.DictReader\<close> is a dictionary from field names to values. Opening and
  reading the file either raises \<open>FileNotFoundError\<close>, raises another exception, or gives
  the rows; the list comprehension reads all of them before the loop starts.
\<close>

type_synonym row = "ustr \<rightharpoonup> ustr"

datatype csv_read = No_such_file | Read_failed ustr | Rows "row list"

definition url_field :: "row \<Rightarrow> ustr option" where
  "url_field r = (case r (u ''URL'') of None \<Rightarrow> None | Some v \<Rightarrow> if v \<noteq> [] then Some v else None)"

definition calculate_total_duration ::
  "(ustr \<Rightarrow> csv_read) \<Rightarrow> (ustr \<Rightarrow> ydl_result) \<Rightarrow> ustr \<Rightarrow> real \<times> totals" where
  "calculate_total_duration fs ydl csv_file =
     (let st0 = \<lparr>total_seconds = 0, video_count = 0, successful_count = 0,
                  printed = [Banner csv_file, Rule]\<rparr>
      in case fs csv_file of
           No_such_file \<Rightarrow> (0, st0\<lparr>printed := printed st0 @ [File_not_found csv_file]\<rparr>)
         | Read_failed e \<Rightarrow> (0, st0\<lparr>printed := printed st0 @ [Read_error e]\<rparr>)
         | Rows rows \<Rightarrow>
             (let urls = List.map_filter url_field rows in
              if urls = [] then (0, st0\<lparr>printed := printed st0 @ [No_urls_found]\<rparr>)
              else
                (let st1 = process_urls ydl (length urls) 1 urls
                             (st0\<lparr>printed := printed st0 @ [Found_videos (length urls)]\<rparr>);
                     total_hours = of_int (total_seconds st1) / 3600
                 in (total_hours,
                     st1\<lparr>printed := printed st1 @
                           [Rule, Summary_header,
                            Videos_processed (video_count st1),
                            Successfully_fetched (successful_count st1),
                            Failed (video_count st1 - successful_count st1),
                            Total_duration (format_duration (total_seconds st1)),
                            Total_hours total_hours]\<rparr>))))"


subsection \<open>The counters after one item and after a batch\<close>

text \<open>
  The seconds one item adds to the total: the duration the lookup gave, when it is
  positive; nothing when the lookup raised or gave no positive duration.
\<close>

definition credited :: "(ustr \<Rightarrow> ydl_result) \<Rightarrow> ustr \<Rightarrow> int" where
  "credited ydl raw = (let d = fst (get_video_duration ydl (py_strip raw)) in if 0 < d then d else 0)"

definition attempted :: "ustr \<Rightarrow> bool" where
  "attempted raw = (py_strip raw \<noteq> [])"

lemma process_url_blank:
  "\<not> attempted raw \<Longrightarrow> process_url ydl n i raw st = st"
  by (simp add: process_url_def attempted_def)

lemma process_url_counters:
  "attempted raw \<Longrightarrow>
     total_seconds (process_url ydl n i raw st) = total_seconds st + credited ydl raw
     \<and> video_count (process_url ydl n i raw st) = video_count st + 1
     \<and> successful_count (process_url ydl n i raw st)
         = successful_count st + (if 0 < credited ydl raw then 1 else 0)"
  by (simp add: process_url_def attempted_def credited_def Let_def)

lemma process_urls_counters:
  "total_seconds (process_urls ydl n i urls st)
     = total_seconds st + sum_list (map (credited ydl) (filter attempted urls))
   \<and> video_count (process_urls ydl n i urls st)
     = video_count st + int (length (filter attempted urls))
   \<and> successful_count (process_urls ydl n i urls st)
     = successful_count st
       + int (length (filter (\<lambda>raw. 0 < credited ydl raw) (filter attempted urls)))"
proof (induction urls arbitrary: i st)
  case Nil
  show ?case by simp
next
  case (Cons raw rest)
  show ?case
  proof (cases "attempted raw")
    case True
    from process_url_counters[OF True, of ydl n i st] Cons.IH[of "i + 1" "process_url ydl n i raw st"]
    show ?thesis using True by simp
  next
    case False
    from process_url_blank[OF False, of ydl n i st] Cons.IH[of "i + 1" st]
    show ?thesis using False by simp
  qed
qed

lemma credited_success:
  "ydl (py_strip raw) = Info info \<Longrightarrow> duration info = Some d \<Longrightarrow> 0 < d \<Longrightarrow> credited ydl raw = d"
  by (simp add: credited_def get_video_duration_def Let_def)

lemma credited_failure:
  "ydl (py_strip raw) = Raised e \<Longrightarrow> credited ydl raw = 0"
  by (simp add: credited_def get_video_duration_def)

lemma credited_no_duration:
  "ydl (py_strip raw) = Info info \<Longrightarrow> duration info = None \<or> duration info = Some d \<and> d \<le> 0
     \<Longrightarrow> credited ydl raw = 0"
  by (auto simp: credited_def get_video_duration_def Let_def)

lemma calculate_rows:
  assumes "fs csv_file = Rows rows" and "List.map_filter url_field rows \<noteq> []"
  shows "total_seconds (snd (calculate_total_duration fs ydl csv_file))
           = sum_list (map (credited ydl) (filter attempted (List.map_filter url_field rows)))
     \<and> video_count (snd (calculate_total_duration fs ydl csv_file))
           = int (length (filter attempted (List.map_filter url_field rows)))
     \<and> successful_count (snd (calculate_total_duration fs ydl csv_file))
           = int (length (filter (\<lambda>raw. 0 < credited ydl raw)
                   (filter attempted (List.map_filter url_field rows))))
     \<and> fst (calculate_total_duration fs ydl csv_file)
           = of_int (total_seconds (snd (calculate_total_duration fs ydl csv_file))) / 3600
     \<and> (\<exists>before. printed (snd (calculate_total_duration fs ydl csv_file)) = before @
           [Rule, Summary_header,
            Videos_processed (video_count (snd (calculate_total_duration fs ydl csv_file))),
            Successfully_fetched (successful_count (snd (calculate_total_duration fs ydl csv_file))),
            Failed (video_count (snd (calculate_total_duration fs ydl csv_file))
                     - successful_count (snd (calculate_total_duration fs ydl csv_file))),
            Total_duration (format_duration (total_seconds (snd (calculate_total_duration fs ydl csv_file)))),
            Total_hours (fst (calculate_total_duration fs ydl csv_file))])"
  using assms by (simp add: calculate_total_duration_def Let_def process_urls_counters)

lemma calculate_no_urls:
  assumes "fs csv_file = Rows rows" and "List.map_filter url_field rows = []"
  shows "calculate_total_duration fs ydl csv_file
           = (0, \<lparr>total_seconds = 0, video_count = 0, successful_count = 0,
                  printed = [Banner csv_file, Rule, No_urls_found]\<rparr>)"
  using assms by (simp add: calculate_total_duration_def Let_def)

subsection \<open>Concrete inputs\<close>

definition fresh :: totals where
  "fresh = \<lparr>total_seconds = 0, video_count = 0, successful_count = 0, printed = []\<rparr>"

definition zero_length_lookup :: "ustr \<Rightarrow> ydl_result" where
  "zero_length_lookup url = Info \<lparr>duration = Some 0, title = Some (u ''clip'')\<rparr>"

definition middle_fails_lookup :: "ustr \<Rightarrow> ydl_result" where
  "middle_fails_lookup url =
     (if url = u ''https://youtu.be/a'' then Info \<lparr>duration = Some 100, title = Some (u ''A'')\<rparr>
      else if url = u ''https://youtu.be/c'' then Info \<lparr>duration = Some 20, title = None\<rparr>
      else Raised (u ''Video unavailable''))"

definition one_url_file :: "ustr \<Rightarrow> csv_read" where
  "one_url_file f = Rows [[u ''URL'' \<mapsto> u ''https://youtu.be/a'']]"

definition three_url_file :: "ustr \<Rightarrow> csv_read" where
  "three_url_file f = Rows [[u ''URL'' \<mapsto> u ''https://youtu.be/a''], [u ''URL'' \<mapsto> u ''https://youtu.be/b''],
                            [u ''URL'' \<mapsto> u ''https://youtu.be/c'']]"

definition blank_url_file :: "ustr \<Rightarrow> csv_read" where
  "blank_url_file f = Rows [[u ''URL'' \<mapsto> u '' '']]"

definition no_url_file :: "ustr \<Rightarrow> csv_read" where
  "no_url_file f = Rows [[u ''Link'' \<mapsto> u ''https://youtu.be/a''], [u ''URL'' \<mapsto> []]]"

definition has_nonblank_url :: "row \<Rightarrow> bool" where
  "has_nonblank_url r = (case r (u ''URL'') of None \<Rightarrow> False | Some v \<Rightarrow> py_strip v \<noteq> [])"

lemmas eval_simps =
  calculate_total_duration_def process_url_def get_video_duration_def format_duration_def
  py_str_int_def digits_of.simps py_strip_def py_isspace_def url_field_def u_def Let_def
  List.map_filter_simps attempted_def credited_def

lemma length_filter_map_filter:
  "length (filter P (List.map_filter f xs))
     = length (filter (\<lambda>x. case f x of None \<Rightarrow> False | Some v \<Rightarrow> P v) xs)"
  by (induction xs) (auto simp: List.map_filter_simps split: option.splits)

lemma py_strip_empty: "py_strip [] = []"
  by (simp add: py_strip_def)

lemma attempted_url_field:
  "(case url_field r of None \<Rightarrow> False | Some v \<Rightarrow> attempted v) = has_nonblank_url r"
  by (auto simp: url_field_def attempted_def has_nonblank_url_def py_strip_empty split: option.splits)

text \<open>
  C1 (as amended). The accounting of one item follows the duration that
  \<open>get_video_duration\<close> hands back, not the bare outcome of the lookup: an attempted item
  whose lookup succeeds with a duration greater than 0 adds that duration to the total and
  increments the success counter; an attempted item whose lookup raises, or succeeds with
  no duration or with a duration of 0 or less, adds nothing, leaves the success counter
  alone and so counts as a failure (attempted minus succeeded). Either way the attempted
  counter grows by one and the loop goes on: after the whole batch the three counters are
  the sums over all attempted items.
\<close>

theorem lookup_outcome_accounting:
  "(attempted raw \<and> ydl (py_strip raw) = Info info \<and> duration info = Some d \<and> 0 < d \<longrightarrow>
      total_seconds (process_url ydl n i raw st) = total_seconds st + d
      \<and> successful_count (process_url ydl n i raw st) = successful_count st + 1
      \<and> video_count (process_url ydl n i raw st) = video_count st + 1)
   \<and> (attempted raw \<and> (ydl (py_strip raw) = Raised e
         \<or> ydl (py_strip raw) = Info info \<and> (duration info = None \<or> duration info = Some d \<and> d \<le> 0)) \<longrightarrow>
      total_seconds (process_url ydl n i raw st) = total_seconds st
      \<and> successful_count (process_url ydl n i raw st) = successful_count st
      \<and> video_count (process_url ydl n i raw st) = video_count st + 1)
   \<and> total_seconds (process_urls ydl n i urls st)
        = total_seconds st + sum_list (map (credited ydl) (filter attempted urls))
   \<and> video_count (process_urls ydl n i urls st)
        = video_count st + int (length (filter attempted urls))
   \<and> successful_count (process_urls ydl n i urls st)
        = successful_count st
          + int (length (filter (\<lambda>raw. 0 < credited ydl raw) (filter attempted urls)))"
proof (intro conjI impI)
  assume h: "attempted raw \<and> ydl (py_strip raw) = Info info \<and> duration info = Some d \<and> 0 < d"
  then have c: "credited ydl raw = d" using credited_success by blast
  from h have a: "attempted raw" by blast
  from process_url_counters[OF a, of ydl n i st] c h
  show "total_seconds (process_url ydl n i raw st) = total_seconds st + d"
    and "successful_count (process_url ydl n i raw st) = successful_count st + 1"
    and "video_count (process_url ydl n i raw st) = video_count st + 1"
    by simp_all
next
  assume h: "attempted raw \<and> (ydl (py_strip raw) = Raised e
         \<or> ydl (py_strip raw) = Info info \<and> (duration info = None \<or> duration info = Some d \<and> d \<le> 0))"
  then have c: "credited ydl raw = 0" using credited_failure credited_no_duration by blast
  from h have a: "attempted raw" by blast
  from process_url_counters[OF a, of ydl n i st] c
  show "total_seconds (process_url ydl n i raw st) = total_seconds st"
    and "successful_count (process_url ydl n i raw st) = successful_count st"
    and "video_count (process_url ydl n i raw st) = video_count st + 1"
    by simp_all
qed (simp_all add: process_urls_counters)

theorem lookup_outcome_accounting_witness:
  "attempted (u ''https://youtu.be/a'')
   \<and> middle_fails_lookup (py_strip (u ''https://youtu.be/a'')) = Info \<lparr>duration = Some 100, title = Some (u ''A'')\<rparr>
   \<and> total_seconds (process_url middle_fails_lookup 3 1 (u ''https://youtu.be/a'') fresh) = 100
   \<and> successful_count (process_url middle_fails_lookup 3 1 (u ''https://youtu.be/a'') fresh) = 1
   \<and> attempted (u ''https://youtu.be/b'')
   \<and> middle_fails_lookup (py_strip (u ''https://youtu.be/b'')) = Raised (u ''Video unavailable'')
   \<and> total_seconds (process_url middle_fails_lookup 3 2 (u ''https://youtu.be/b'') fresh) = 0
   \<and> successful_count (process_url middle_fails_lookup 3 2 (u ''https://youtu.be/b'') fresh) = 0
   \<and> video_count (process_url middle_fails_lookup 3 2 (u ''https://youtu.be/b'') fresh) = 1"
proof -
  have a: "attempted (u ''https://youtu.be/a'')" and b: "attempted (u ''https://youtu.be/b'')"
    by (simp_all add: attempted_def py_strip_def py_isspace_def u_def)
  have la: "middle_fails_lookup (py_strip (u ''https://youtu.be/a''))
              = Info \<lparr>duration = Some 100, title = Some (u ''A'')\<rparr>"
    and lb: "middle_fails_lookup (py_strip (u ''https://youtu.be/b'')) = Raised (u ''Video unavailable'')"
    by (simp_all add: middle_fails_lookup_def py_strip_def py_isspace_def u_def)
  have f: "total_seconds fresh = 0" "successful_count fresh = 0" "video_count fresh = 0"
    by (simp_all add: fresh_def)
  from lookup_outcome_accounting[of "u ''https://youtu.be/a''" middle_fails_lookup
      "\<lparr>duration = Some 100, title = Some (u ''A'')\<rparr>" 100 3 1 fresh] a la f
  have 1: "total_seconds (process_url middle_fails_lookup 3 1 (u ''https://youtu.be/a'') fresh) = 100"
    and 2: "successful_count (process_url middle_fails_lookup 3 1 (u ''https://youtu.be/a'') fresh) = 1"
    by simp_all
  from lookup_outcome_accounting[of "u ''https://youtu.be/b''" middle_fails_lookup _ _ 3 2 fresh
      "u ''Video unavailable''"] b lb f
  have 3: "total_seconds (process_url middle_fails_lookup 3 2 (u ''https://youtu.be/b'') fresh) = 0"
    and 4: "successful_count (process_url middle_fails_lookup 3 2 (u ''https://youtu.be/b'') fresh) = 0"
    and 5: "video_count (process_url middle_fails_lookup 3 2 (u ''https://youtu.be/b'') fresh) = 1"
    by simp_all
  show ?thesis using a b la lb 1 2 3 4 5 by blast
qed

text \<open>
  The claim as stated fails where the lookup succeeds with the duration 0: the item is
  attempted, the lookup returns, and the success counter stays at 0 (one failure shown).
\<close>

theorem zero_duration_counterexample:
  "zero_length_lookup (py_strip (u ''https://youtu.be/a''))
     = Info \<lparr>duration = Some 0, title = Some (u ''clip'')\<rparr>
   \<and> video_count (snd (calculate_total_duration one_url_file zero_length_lookup (u ''urls.csv''))) = 1
   \<and> successful_count (snd (calculate_total_duration one_url_file zero_length_lookup (u ''urls.csv''))) = 0
   \<and> Failed 1 \<in> set (printed (snd (calculate_total_duration one_url_file zero_length_lookup (u ''urls.csv''))))"
  by (simp add: eval_simps zero_length_lookup_def one_url_file_def)

text \<open>
  C5. Three references, all attempted, where the lookup of the second raises and the
  first and third succeed with positive durations \<open>d1\<close> and \<open>d3\<close>: the batch runs to its
  summary with total \<open>d1 + d3\<close> seconds (and that many seconds over 3600 as hours), 3
  attempted, 2 succeeded, 1 failed.
\<close>

theorem second_of_three_fails:
  assumes "fs csv_file = Rows rows" and "List.map_filter url_field rows = [r1, r2, r3]"
    and "attempted r1" and "attempted r2" and "attempted r3"
    and "ydl (py_strip r1) = Info i1" and "duration i1 = Some d1" and "0 < d1"
    and "ydl (py_strip r2) = Raised e"
    and "ydl (py_strip r3) = Info i3" and "duration i3 = Some d3" and "0 < d3"
  shows "total_seconds (snd (calculate_total_duration fs ydl csv_file)) = d1 + d3
     \<and> video_count (snd (calculate_total_duration fs ydl csv_file)) = 3
     \<and> successful_count (snd (calculate_total_duration fs ydl csv_file)) = 2
     \<and> fst (calculate_total_duration fs ydl csv_file) = of_int (d1 + d3) / 3600
     \<and> Videos_processed 3 \<in> set (printed (snd (calculate_total_duration fs ydl csv_file)))
     \<and> Successfully_fetched 2 \<in> set (printed (snd (calculate_total_duration fs ydl csv_file)))
     \<and> Failed 1 \<in> set (printed (snd (calculate_total_duration fs ydl csv_file)))"
proof -
  have c1: "credited ydl r1 = d1" using assms(6-8) by (rule credited_success)
  have c2: "credited ydl r2 = 0" using assms(9) by (rule credited_failure)
  have c3: "credited ydl r3 = d3" using assms(10-12) by (rule credited_success)
  have ne: "List.map_filter url_field rows \<noteq> []" using assms(2) by simp
  note r = calculate_rows[where fs=fs and csv_file=csv_file and rows=rows and ydl=ydl, OF assms(1) ne, unfolded assms(2)]
  have t: "total_seconds (snd (calculate_total_duration fs ydl csv_file)) = d1 + d3"
    and v: "video_count (snd (calculate_total_duration fs ydl csv_file)) = 3"
    and s: "successful_count (snd (calculate_total_duration fs ydl csv_file)) = 2"
    using r assms(3-5,8,12) c1 c2 c3 by simp_all
  have h: "fst (calculate_total_duration fs ydl csv_file) = of_int (d1 + d3) / 3600"
    using r t by simp
  from r obtain before where "printed (snd (calculate_total_duration fs ydl csv_file)) = before @
           [Rule, Summary_header,
            Videos_processed (video_count (snd (calculate_total_duration fs ydl csv_file))),
            Successfully_fetched (successful_count (snd (calculate_total_duration fs ydl csv_file))),
            Failed (video_count (snd (calculate_total_duration fs ydl csv_file))
                     - successful_count (snd (calculate_total_duration fs ydl csv_file))),
            Total_duration (format_duration (total_seconds (snd (calculate_total_duration fs ydl csv_file)))),
            Total_hours (fst (calculate_total_duration fs ydl csv_file))]"
    by blast
  then have p: "Videos_processed 3 \<in> set (printed (snd (calculate_total_duration fs ydl csv_file)))"
    "Successfully_fetched 2 \<in> set (printed (snd (calculate_total_duration fs ydl csv_file)))"
    "Failed 1 \<in> set (printed (snd (calculate_total_duration fs ydl csv_file)))"
    using v s by simp_all
  show ?thesis using t v s h p by blast
qed

theorem second_of_three_fails_witness:
  "three_url_file (u ''urls.csv'')
     = Rows [[u ''URL'' \<mapsto> u ''https://youtu.be/a''], [u ''URL'' \<mapsto> u ''https://youtu.be/b''],
             [u ''URL'' \<mapsto> u ''https://youtu.be/c'']]
   \<and> total_seconds (snd (calculate_total_duration three_url_file middle_fails_lookup (u ''urls.csv''))) = 100 + 20
   \<and> video_count (snd (calculate_total_duration three_url_file middle_fails_lookup (u ''urls.csv''))) = 3
   \<and> successful_count (snd (calculate_total_duration three_url_file middle_fails_lookup (u ''urls.csv''))) = 2
   \<and> Failed 1 \<in> set (printed (snd (calculate_total_duration three_url_file middle_fails_lookup (u ''urls.csv''))))"
proof -
  have f: "three_url_file (u ''urls.csv'')
     = Rows [[u ''URL'' \<mapsto> u ''https://youtu.be/a''], [u ''URL'' \<mapsto> u ''https://youtu.be/b''],
             [u ''URL'' \<mapsto> u ''https://youtu.be/c'']]"
    by (simp add: three_url_file_def)
  have m: "List.map_filter url_field
             [[u ''URL'' \<mapsto> u ''https://youtu.be/a''], [u ''URL'' \<mapsto> u ''https://youtu.be/b''],
              [u ''URL'' \<mapsto> u ''https://youtu.be/c'']]
           = [u ''https://youtu.be/a'', u ''https://youtu.be/b'', u ''https://youtu.be/c'']"
    by (simp add: List.map_filter_simps url_field_def u_def)
  have a: "attempted (u ''https://youtu.be/a'')" "attempted (u ''https://youtu.be/b'')"
    "attempted (u ''https://youtu.be/c'')"
    by (simp_all add: attempted_def py_strip_def py_isspace_def u_def)
  have l1: "middle_fails_lookup (py_strip (u ''https://youtu.be/a''))
              = Info \<lparr>duration = Some 100, title = Some (u ''A'')\<rparr>"
    and l2: "middle_fails_lookup (py_strip (u ''https://youtu.be/b'')) = Raised (u ''Video unavailable'')"
    and l3: "middle_fails_lookup (py_strip (u ''https://youtu.be/c''))
              = Info \<lparr>duration = Some 20, title = None\<rparr>"
    by (simp_all add: middle_fails_lookup_def py_strip_def py_isspace_def u_def)
  have d: "duration \<lparr>duration = Some 100, title = Some (u ''A'')\<rparr> = Some 100"
    "duration \<lparr>duration = Some 20, title = None\<rparr> = Some 20" "(0::int) < 100" "(0::int) < 20"
    by simp_all
  from second_of_three_fails[where fs=three_url_file and csv_file="u ''urls.csv''" and ydl=middle_fails_lookup,
      OF f m a l1 d(1) d(3) l2 l3 d(2) d(4)] f
  show ?thesis by blast
qed

text \<open>
  C8. When the file gives no URL at all (no row, or no row with a non-empty \<open>URL\<close>
  field), the function prints the not-found line and returns 0 hours; the total is 0
  seconds and nothing was attempted. No error is raised.
\<close>

theorem empty_list_is_zero:
  "fs csv_file = Rows rows \<and> List.map_filter url_field rows = [] \<longrightarrow>
     calculate_total_duration fs ydl csv_file
       = (0, \<lparr>total_seconds = 0, video_count = 0, successful_count = 0,
              printed = [Banner csv_file, Rule, No_urls_found]\<rparr>)"
  using calculate_no_urls by blast

theorem empty_list_is_zero_witness:
  "no_url_file (u ''urls.csv'') = Rows [[u ''Link'' \<mapsto> u ''https://youtu.be/a''], [u ''URL'' \<mapsto> []]]
   \<and> List.map_filter url_field [[u ''Link'' \<mapsto> u ''https://youtu.be/a''], [u ''URL'' \<mapsto> []]] = []
   \<and> calculate_total_duration no_url_file middle_fails_lookup (u ''urls.csv'')
       = (0, \<lparr>total_seconds = 0, video_count = 0, successful_count = 0,
              printed = [Banner (u ''urls.csv''), Rule, No_urls_found]\<rparr>)"
proof -
  have f: "no_url_file (u ''urls.csv'') = Rows [[u ''Link'' \<mapsto> u ''https://youtu.be/a''], [u ''URL'' \<mapsto> []]]"
    by (simp add: no_url_file_def)
  have m: "List.map_filter url_field [[u ''Link'' \<mapsto> u ''https://youtu.be/a''], [u ''URL'' \<mapsto> []]] = []"
    by (simp add: List.map_filter_simps url_field_def u_def)
  from empty_list_is_zero[of no_url_file "u ''urls.csv''" _ middle_fails_lookup] f m
  show ?thesis by blast
qed

lemma map_filter_drop_row:
  "url_field r = None \<Longrightarrow>
     List.map_filter url_field (pre @ r # post) = List.map_filter url_field (pre @ post)"
  by (simp add: List.map_filter_def)

lemma url_field_absent:
  "r (u ''URL'') = None \<or> r (u ''URL'') = Some [] \<Longrightarrow> url_field r = None"
  by (auto simp: url_field_def)

lemma calculate_depends_on_urls:
  assumes "fs csv_file = Rows rows" and "fs' csv_file = Rows rows'"
    and "List.map_filter url_field rows = List.map_filter url_field rows'"
  shows "calculate_total_duration fs ydl csv_file = calculate_total_duration fs' ydl csv_file"
  using assms by (simp add: calculate_total_duration_def)

lemma attempted_rows:
  "length (filter attempted (List.map_filter url_field rows)) = length (filter has_nonblank_url rows)"
  by (simp add: length_filter_map_filter attempted_url_field)

lemma calculate_video_count:
  assumes "fs csv_file = Rows rows"
  shows "video_count (snd (calculate_total_duration fs ydl csv_file))
           = int (length (filter has_nonblank_url rows))"
proof (cases "List.map_filter url_field rows = []")
  case True
  then have "length (filter attempted (List.map_filter url_field rows)) = 0" by simp
  then have "length (filter has_nonblank_url rows) = 0" by (simp only: attempted_rows)
  with calculate_no_urls[where fs=fs and csv_file=csv_file and rows=rows and ydl=ydl, OF assms True]
  show ?thesis by simp
next
  case False
  from calculate_rows[where fs=fs and csv_file=csv_file and rows=rows and ydl=ydl, OF assms False]
  show ?thesis by (simp only: attempted_rows)
qed

text \<open>
  C9 (as amended). A row without the \<open>URL\<close> field, or with an empty value for it, is
  filtered out before the loop: taking it out of the file changes nothing of the result
  (return value, counters, printed lines), so it is neither attempted nor a failure. The
  attempted count is the number of rows whose \<open>URL\<close> value is present and not blank,
  where blank means empty once surrounding whitespace is stripped: the loop skips a
  whitespace-only value without counting it.
\<close>

theorem rows_without_url_are_not_attempted:
  "(fs csv_file = Rows (pre @ r # post) \<and> fs' csv_file = Rows (pre @ post)
      \<and> (r (u ''URL'') = None \<or> r (u ''URL'') = Some [])
      \<longrightarrow> calculate_total_duration fs ydl csv_file = calculate_total_duration fs' ydl csv_file)
   \<and> (fs csv_file = Rows rows
      \<longrightarrow> video_count (snd (calculate_total_duration fs ydl csv_file))
            = int (length (filter has_nonblank_url rows)))"
proof (intro conjI impI)
  assume h: "fs csv_file = Rows (pre @ r # post) \<and> fs' csv_file = Rows (pre @ post)
      \<and> (r (u ''URL'') = None \<or> r (u ''URL'') = Some [])"
  then have "url_field r = None" using url_field_absent by blast
  then have "List.map_filter url_field (pre @ r # post) = List.map_filter url_field (pre @ post)"
    by (rule map_filter_drop_row)
  with h show "calculate_total_duration fs ydl csv_file = calculate_total_duration fs' ydl csv_file"
    using calculate_depends_on_urls by blast
next
  assume "fs csv_file = Rows rows"
  then show "video_count (snd (calculate_total_duration fs ydl csv_file))
            = int (length (filter has_nonblank_url rows))"
    by (rule calculate_video_count)
qed

definition link_row_file :: "ustr \<Rightarrow> csv_read" where
  "link_row_file f = Rows ([[u ''URL'' \<mapsto> u ''https://youtu.be/a'']]
                            @ [u ''Link'' \<mapsto> u ''https://youtu.be/b''] # [])"

definition link_row_removed_file :: "ustr \<Rightarrow> csv_read" where
  "link_row_removed_file f = Rows ([[u ''URL'' \<mapsto> u ''https://youtu.be/a'']] @ [])"

theorem rows_without_url_are_not_attempted_witness:
  "link_row_file (u ''urls.csv'')
     = Rows ([[u ''URL'' \<mapsto> u ''https://youtu.be/a'']] @ [u ''Link'' \<mapsto> u ''https://youtu.be/b''] # [])
   \<and> [u ''Link'' \<mapsto> u ''https://youtu.be/b''] (u ''URL'') = None
   \<and> calculate_total_duration link_row_file middle_fails_lookup (u ''urls.csv'')
       = calculate_total_duration link_row_removed_file middle_fails_lookup (u ''urls.csv'')
   \<and> video_count (snd (calculate_total_duration link_row_file middle_fails_lookup (u ''urls.csv''))) = 1"
proof -
  have f: "link_row_file (u ''urls.csv'')
     = Rows ([[u ''URL'' \<mapsto> u ''https://youtu.be/a'']] @ [u ''Link'' \<mapsto> u ''https://youtu.be/b''] # [])"
    by (simp add: link_row_file_def)
  have g: "link_row_removed_file (u ''urls.csv'') = Rows ([[u ''URL'' \<mapsto> u ''https://youtu.be/a'']] @ [])"
    by (simp add: link_row_removed_file_def)
  have n: "[u ''Link'' \<mapsto> u ''https://youtu.be/b''] (u ''URL'') = None"
    by (simp add: u_def)
  have c: "int (length (filter has_nonblank_url
             ([[u ''URL'' \<mapsto> u ''https://youtu.be/a'']] @ [u ''Link'' \<mapsto> u ''https://youtu.be/b''] # []))) = 1"
    by (simp add: has_nonblank_url_def py_strip_def py_isspace_def u_def)
  note t = rows_without_url_are_not_attempted[where fs=link_row_file and fs'=link_row_removed_file
      and csv_file="u ''urls.csv''" and pre="[[u ''URL'' \<mapsto> u ''https://youtu.be/a'']]"
      and r="[u ''Link'' \<mapsto> u ''https://youtu.be/b'']" and post="[]"
      and rows="[[u ''URL'' \<mapsto> u ''https://youtu.be/a'']] @ [u ''Link'' \<mapsto> u ''https://youtu.be/b''] # []"
      and ydl=middle_fails_lookup]
  from t f g n
  have e: "calculate_total_duration link_row_file middle_fails_lookup (u ''urls.csv'')
       = calculate_total_duration link_row_removed_file middle_fails_lookup (u ''urls.csv'')"
    by blast
  from t f
  have "video_count (snd (calculate_total_duration link_row_file middle_fails_lookup (u ''urls.csv'')))
      = int (length (filter has_nonblank_url
             ([[u ''URL'' \<mapsto> u ''https://youtu.be/a'']] @ [u ''Link'' \<mapsto> u ''https://youtu.be/b''] # [])))"
    by blast
  with c have v: "video_count (snd (calculate_total_duration link_row_file middle_fails_lookup (u ''urls.csv''))) = 1"
    by (simp only:)
  show ?thesis using f n e v by blast
qed

text \<open>
  The claim as stated fails on a row whose \<open>URL\<close> value is a single space: the value is
  present and not empty, yet the row is not attempted.
\<close>

theorem blank_url_counterexample:
  "blank_url_file (u ''urls.csv'') = Rows [[u ''URL'' \<mapsto> u '' '']]
   \<and> [u ''URL'' \<mapsto> u '' ''] (u ''URL'') = Some (u '' '') \<and> u '' '' \<noteq> []
   \<and> length (List.map_filter url_field [[u ''URL'' \<mapsto> u '' '']]) = 1
   \<and> video_count (snd (calculate_total_duration blank_url_file middle_fails_lookup (u ''urls.csv''))) = 0
   \<and> Videos_processed 0
        \<in> set (printed (snd (calculate_total_duration blank_url_file middle_fails_lookup (u ''urls.csv''))))"
  by (simp add: eval_simps blank_url_file_def)

section \<open>update\_vocabulary.py: the streak calculator\<close>

text \<open>
  A calendar date is modelled by its day number (an integer), so that
  \<open>today - timedelta(days=i)\<close> is \<open>today - i\<close>; the range limits of \<open>datetime.date\<close> are not
  modelled. \<open>rows\<close> is the result of the query, each date string already parsed.

  The loop over \<open>enumerate(rows)\<close>: \<open>i\<close> is the index, \<open>streak\<close> the counter; the first row
  that differs from its expected date ends the loop.
\<close>

fun count_streak :: "int \<Rightarrow> nat \<Rightarrow> int list \<Rightarrow> int \<Rightarrow> int" where
  "count_streak today i [] streak = streak"
| "count_streak today i (review_date # rest) streak =
     (let expected_date = today - int i in
      if review_date = expected_date then count_streak today (Suc i) rest (streak + 1)
      else streak)"

definition streak_from_rows :: "int list \<Rightarrow> int \<Rightarrow> int" where
  "streak_from_rows rows today = (if rows = [] then 0 else count_streak today 0 rows 0)"

text \<open>
  The collection is looked for in three places, in this order; when none exists the
  functions raise \<open>FileNotFoundError\<close>. The record holds what the opened collection and
  the clock give: the id of the deck (\<open>None\<close> or 0 when there is none), the repetition
  counts of its cards, the ids of the review log (\<open>revlog.id\<close>, the time of each review
  in milliseconds since the epoch, several for one day as a rule), the local calendar day
  of a time in seconds since the epoch (what \<open>date(..., 'unixepoch', 'localtime')\<close>
  computes, as a day number), and today's date.
\<close>

datatype collection_path = AppData_Roaming | Local_share | Library_Application_Support

record anki =
  path_exists :: "collection_path \<Rightarrow> bool"
  deck_id :: "int option"
  card_reps :: "int list"
  revlog :: "int list"
  local_day :: "int \<Rightarrow> int"
  clock_today :: int

definition find_collection :: "anki \<Rightarrow> py_error + collection_path" where
  "find_collection env =
     (if path_exists env AppData_Roaming then Inr AppData_Roaming
      else if path_exists env Local_share then Inr Local_share
      else if path_exists env Library_Application_Support then Inr Library_Application_Support
      else Inl FileNotFoundError)"

definition get_seen_words_count :: "anki \<Rightarrow> py_error + int" where
  "get_seen_words_count env =
     and_then (find_collection env) (\<lambda>col_path.
       if deck_id env = None \<or> deck_id env = Some 0 then Inl ValueError
       else Inr (int (length (filter (\<lambda>reps. reps > 0) (card_reps env)))))"

text \<open>
  The query of \<open>get_current_streak\<close>:
  \<^verbatim>\<open>SELECT DISTINCT date(id/1000, 'unixepoch', 'localtime') as review_date
  FROM revlog ORDER BY review_date DESC\<close>.
  The division of two integers truncates towards zero in SQLite. \<open>event_dates\<close> is the
  column before \<open>DISTINCT\<close>, one date for each review; \<open>review_rows\<close> is the result, one
  row for each date, the latest first (the dates are ordered as text, which for the years 0
  to 9999 of SQLite is the order of the days).
\<close>

definition sqlite_div :: "int \<Rightarrow> int \<Rightarrow> int" where
  "sqlite_div a b = (if (a < 0) = (b < 0) then \<bar>a\<bar> div \<bar>b\<bar> else - (\<bar>a\<bar> div \<bar>b\<bar>))"

definition event_dates :: "anki \<Rightarrow> int list" where
  "event_dates env = map (\<lambda>id. local_day env (sqlite_div id 1000)) (revlog env)"

definition review_rows :: "anki \<Rightarrow> int list" where
  "review_rows env = rev (sort (remdups (event_dates env)))"

definition get_current_streak :: "anki \<Rightarrow> py_error + int" where
  "get_current_streak env =
     and_then (find_collection env) (\<lambda>col_path.
       Inr (streak_from_rows (review_rows env) (clock_today env)))"

subsection \<open>The walk against the expected dates\<close>

text \<open>The number of leading rows that equal \<open>t\<close>, \<open>t - 1\<close>, \<open>t - 2\<close>, ... in this order.\<close>

fun lockstep :: "int \<Rightarrow> int list \<Rightarrow> nat" where
  "lockstep t [] = 0"
| "lockstep t (d # ds) = (if d = t then Suc (lockstep (t - 1) ds) else 0)"

lemma count_streak_lockstep:
  "count_streak today i rows streak = streak + int (lockstep (today - int i) rows)"
proof (induction rows arbitrary: i streak)
  case Nil
  show ?case by simp
next
  case (Cons d ds)
  have "today - int (Suc i) = today - int i - 1" by simp
  with Cons.IH[of "Suc i" "streak + 1"] show ?case by (simp add: Let_def diff_diff_eq add.commute)
qed

lemma streak_from_rows_lockstep: "streak_from_rows rows today = int (lockstep today rows)"
  by (simp add: streak_from_rows_def count_streak_lockstep)

lemma lockstep_le: "lockstep t rows \<le> length rows"
  by (induction rows arbitrary: t) auto

lemma lockstep_prefix: "k < lockstep t rows \<Longrightarrow> rows ! k = t - int k"
proof (induction rows arbitrary: t k)
  case Nil
  then show ?case by simp
next
  case (Cons d ds)
  then show ?case by (cases k) (auto split: if_splits)
qed

lemma lockstep_stop:
  "lockstep t rows < length rows \<Longrightarrow> rows ! lockstep t rows \<noteq> t - int (lockstep t rows)"
proof (induction rows arbitrary: t)
  case Nil
  then show ?case by simp
next
  case (Cons d ds)
  show ?case
  proof (cases "d = t")
    case True
    with Cons.prems have "lockstep (t - 1) ds < length ds" by simp
    from Cons.IH[OF this] True show ?thesis by (simp add: diff_diff_eq add.commute)
  next
    case False
    then show ?thesis by simp
  qed
qed

lemma lockstep_absent: "t \<notin> set rows \<Longrightarrow> lockstep t rows = 0"
  by (cases rows) auto

text \<open>
  On rows in strictly descending order with no date after \<open>t\<close>, the walk counts exactly
  the days \<open>t\<close>, \<open>t - 1\<close>, ... that are present without a gap.
\<close>

lemma lockstep_present:
  "sorted_wrt (>) rows \<Longrightarrow> (\<forall>d\<in>set rows. d \<le> t) \<Longrightarrow>
     (k < lockstep t rows) = (\<forall>j\<le>k. t - int j \<in> set rows)"
proof (induction rows arbitrary: t k)
  case Nil
  show ?case by auto
next
  case (Cons d ds)
  show ?case
  proof (cases "d = t")
    case True
    from Cons.prems True have s: "sorted_wrt (>) ds" and b: "\<forall>x\<in>set ds. x \<le> t - 1" by auto
    note ih = Cons.IH[OF s b]
    show ?thesis
    proof (cases k)
      case 0
      with True show ?thesis by simp
    next
      case (Suc k')
      have "(\<forall>j\<le>Suc k'. t - int j \<in> set (d # ds)) = (\<forall>j\<le>k'. t - 1 - int j \<in> set ds)"
      proof
        assume a: "\<forall>j\<le>Suc k'. t - int j \<in> set (d # ds)"
        show "\<forall>j\<le>k'. t - 1 - int j \<in> set ds"
        proof (intro allI impI)
          fix j assume "j \<le> k'"
          with a have "t - int (Suc j) \<in> set (d # ds)" by (metis Suc_le_mono)
          with True show "t - 1 - int j \<in> set ds" by (auto simp: diff_diff_eq add.commute)
        qed
      next
        assume a: "\<forall>j\<le>k'. t - 1 - int j \<in> set ds"
        show "\<forall>j\<le>Suc k'. t - int j \<in> set (d # ds)"
        proof (intro allI impI)
          fix j assume j: "j \<le> Suc k'"
          show "t - int j \<in> set (d # ds)"
          proof (cases j)
            case 0
            with True show ?thesis by simp
          next
            case (Suc j')
            with j a have "t - 1 - int j' \<in> set ds" by simp
            with Suc show ?thesis by (simp add: algebra_simps)
          qed
        qed
      qed
      with ih[of k'] True Suc show ?thesis by simp
    qed
  next
    case False
    with Cons.prems have "\<forall>x\<in>set (d # ds). x < t" by fastforce
    then have "t \<notin> set (d # ds)" by blast
    then have "\<not> (\<forall>j\<le>k. t - int j \<in> set (d # ds))" by (metis le0 of_nat_0 diff_zero)
    with False show ?thesis by simp
  qed
qed

lemma three_days:
  assumes "sorted_wrt (>) rows" and "\<forall>d\<in>set rows. d \<le> t \<and> d \<noteq> t - 3"
    and "{t, t - 1, t - 2} \<subseteq> set rows"
  shows "lockstep t rows = 3"
proof -
  from assms(2) have b: "\<forall>d\<in>set rows. d \<le> t" by blast
  have "\<forall>j\<le>2. t - int j \<in> set rows"
  proof (intro allI impI)
    fix j :: nat assume "j \<le> 2"
    then have "j = 0 \<or> j = 1 \<or> j = 2" by auto
    with assms(3) show "t - int j \<in> set rows" by auto
  qed
  then have "2 < lockstep t rows" using lockstep_present[OF assms(1) b, of 2] by simp
  moreover have "\<not> 3 < lockstep t rows"
  proof
    assume "3 < lockstep t rows"
    then have "\<forall>j\<le>3. t - int j \<in> set rows" using lockstep_present[OF assms(1) b, of 3] by simp
    then have "t - int 3 \<in> set rows" by blast
    with assms(2) show False by auto
  qed
  ultimately show ?thesis by simp
qed

text \<open>
  Deduplication by date, as the specification words it: of several entries with the same
  date only the first is kept.
\<close>

fun dedup_seen :: "int list \<Rightarrow> int list \<Rightarrow> int list" where
  "dedup_seen seen [] = []"
| "dedup_seen seen (d # ds) =
     (if d \<in> set seen then dedup_seen seen ds else d # dedup_seen (d # seen) ds)"

definition dedup_by_date :: "int list \<Rightarrow> int list" where
  "dedup_by_date rows = dedup_seen [] rows"

lemma dedup_seen_set: "set (dedup_seen seen xs) = set xs - set seen"
  by (induction xs arbitrary: seen) auto

lemma dedup_seen_distinct: "distinct (dedup_seen seen xs)"
  by (induction xs arbitrary: seen) (auto simp: dedup_seen_set)

lemma dedup_seen_sorted: "sorted_wrt (\<ge>) xs \<Longrightarrow> sorted_wrt (\<ge>) (dedup_seen seen xs)"
  by (induction xs arbitrary: seen) (auto simp: dedup_seen_set)

lemma strictly_descending:
  "sorted_wrt (\<ge>) (xs :: int list) \<Longrightarrow> distinct xs \<Longrightarrow> sorted_wrt (>) xs"
  by (induction xs) (auto simp: less_le)

lemma strictly_descending_unique:
  assumes "sorted_wrt (>) (xs :: int list)" and "sorted_wrt (>) ys" and "set xs = set ys"
  shows "xs = ys"
proof -
  from assms(1,2) have "sorted_wrt (<) (rev xs)" and "sorted_wrt (<) (rev ys)"
    by (simp_all add: sorted_wrt_rev)
  with assms(3) have "rev xs = rev ys" by (intro strict_sorted_equal) simp_all
  then show ?thesis by simp
qed

lemma descending_sort: "sorted_wrt (\<ge>) (rev (sort (xs :: int list)))"
proof -
  have "sorted_wrt (\<le>) (sort xs)" by simp
  then show ?thesis by (simp add: sorted_wrt_rev)
qed

lemma review_rows_descending: "sorted_wrt (>) (review_rows env)"
proof -
  have "sorted_wrt (<) (sort (remdups (event_dates env)))"
    by (simp add: strict_sorted_iff)
  then show ?thesis by (simp add: review_rows_def sorted_wrt_rev)
qed

lemma review_rows_set: "set (review_rows env) = set (event_dates env)"
  by (simp add: review_rows_def)

lemma review_rows_dedup: "review_rows env = dedup_by_date (rev (sort (event_dates env)))"
proof (rule strictly_descending_unique[OF review_rows_descending])
  show "sorted_wrt (>) (dedup_by_date (rev (sort (event_dates env))))"
    unfolding dedup_by_date_def
    by (rule strictly_descending[OF dedup_seen_sorted[OF descending_sort] dedup_seen_distinct])
  show "set (review_rows env) = set (dedup_by_date (rev (sort (event_dates env))))"
    by (simp add: review_rows_set dedup_by_date_def dedup_seen_set)
qed

lemma review_rows_of_set:
  "set (event_dates env') = set (event_dates env) \<Longrightarrow> review_rows env' = review_rows env"
  by (rule strictly_descending_unique[OF review_rows_descending review_rows_descending])
     (simp add: review_rows_set)

text \<open>
  C3. For every list of rows and every \<open>today\<close>, the streak is the length of the longest
  prefix of the rows that equals \<open>today\<close>, \<open>today - 1\<close>, \<open>today - 2\<close>, ... position by position:
  the rows before it match and the row at it, if any, does not. It is 0 when \<open>today\<close> is
  not among the rows, in particular for no rows at all. On rows in strictly descending
  order (reverse-chronological, one row for each date) with no date after \<open>today\<close>, more than
  \<open>k\<close> days are counted exactly when all of \<open>today\<close>, ..., \<open>today - k\<close> are present; with
  \<open>today\<close>, \<open>today - 1\<close>, \<open>today - 2\<close> present and \<open>today - 3\<close> absent the streak is 3.
\<close>

theorem streak_is_lockstep_prefix:
  "0 \<le> streak_from_rows rows t
   \<and> nat (streak_from_rows rows t) \<le> length rows
   \<and> (\<forall>k. k < nat (streak_from_rows rows t) \<longrightarrow> rows ! k = t - int k)
   \<and> (nat (streak_from_rows rows t) < length rows
        \<longrightarrow> rows ! nat (streak_from_rows rows t) \<noteq> t - streak_from_rows rows t)
   \<and> (t \<notin> set rows \<longrightarrow> streak_from_rows rows t = 0)
   \<and> streak_from_rows [] t = 0
   \<and> (sorted_wrt (>) rows \<and> (\<forall>d\<in>set rows. d \<le> t)
        \<longrightarrow> (\<forall>k. (int k < streak_from_rows rows t) = (\<forall>j\<le>k. t - int j \<in> set rows)))
   \<and> (sorted_wrt (>) rows \<and> (\<forall>d\<in>set rows. d \<le> t \<and> d \<noteq> t - 3) \<and> {t, t - 1, t - 2} \<subseteq> set rows
        \<longrightarrow> streak_from_rows rows t = 3)
   \<and> (find_collection env = Inr p
        \<longrightarrow> get_current_streak env = Inr (streak_from_rows (review_rows env) (clock_today env)))"
proof (intro conjI impI allI)
  show "0 \<le> streak_from_rows rows t" by (simp add: streak_from_rows_lockstep)
  show "nat (streak_from_rows rows t) \<le> length rows"
    by (simp add: streak_from_rows_lockstep lockstep_le)
  show "streak_from_rows [] t = 0" by (simp add: streak_from_rows_def)
next
  fix k assume "k < nat (streak_from_rows rows t)"
  then show "rows ! k = t - int k" by (simp add: streak_from_rows_lockstep lockstep_prefix)
next
  assume "nat (streak_from_rows rows t) < length rows"
  then have "lockstep t rows < length rows" by (simp add: streak_from_rows_lockstep)
  from lockstep_stop[OF this]
  show "rows ! nat (streak_from_rows rows t) \<noteq> t - streak_from_rows rows t"
    by (simp add: streak_from_rows_lockstep)
next
  assume "t \<notin> set rows"
  then show "streak_from_rows rows t = 0" by (simp add: streak_from_rows_lockstep lockstep_absent)
next
  fix k assume "sorted_wrt (>) rows \<and> (\<forall>d\<in>set rows. d \<le> t)"
  then have s: "sorted_wrt (>) rows" and b: "\<forall>d\<in>set rows. d \<le> t" by blast+
  from lockstep_present[OF s b, of k]
  show "(int k < streak_from_rows rows t) = (\<forall>j\<le>k. t - int j \<in> set rows)"
    by (simp add: streak_from_rows_lockstep)
next
  assume "sorted_wrt (>) rows \<and> (\<forall>d\<in>set rows. d \<le> t \<and> d \<noteq> t - 3) \<and> {t, t - 1, t - 2} \<subseteq> set rows"
  then have "lockstep t rows = 3" using three_days by blast
  then show "streak_from_rows rows t = 3" by (simp add: streak_from_rows_lockstep)
next
  assume "find_collection env = Inr p"
  then show "get_current_streak env = Inr (streak_from_rows (review_rows env) (clock_today env))"
    by (simp add: get_current_streak_def and_then_def)
qed

theorem streak_is_lockstep_prefix_witness:
  "sorted_wrt (>) [100, 99, 98, 96 :: int]
   \<and> {100, 100 - 1, 100 - 2} \<subseteq> set [100, 99, 98, 96 :: int]
   \<and> streak_from_rows [100, 99, 98, 96] 100 = 3
   \<and> 100 \<notin> set [99, 98 :: int]
   \<and> streak_from_rows [99, 98] 100 = 0"
proof -
  have s: "sorted_wrt (>) [100, 99, 98, 96 :: int]" by simp
  have b: "\<forall>d\<in>set [100, 99, 98, 96 :: int]. d \<le> 100 \<and> d \<noteq> 100 - 3" by simp
  have c: "{100, 100 - 1, 100 - 2} \<subseteq> set [100, 99, 98, 96 :: int]" by simp
  have n: "100 \<notin> set [99, 98 :: int]" by simp
  from streak_is_lockstep_prefix[of "[100, 99, 98, 96]" 100] s b c
  have 1: "streak_from_rows [100, 99, 98, 96] 100 = 3" by blast
  from streak_is_lockstep_prefix[of "[99, 98]" 100] n
  have 2: "streak_from_rows [99, 98] 100 = 0" by blast
  show ?thesis using s c n 1 2 by blast
qed

text \<open>
  C4. The reviews of one day are several entries with the same date. \<open>get_current_streak\<close>
  removes the duplicates before the walk, through \<open>DISTINCT\<close> in its query: the rows walked
  are the dates of the reviews, latest first, deduplicated by date, and no date occurs in
  them twice. So the result on a review log is the result on a log with the same dates
  deduplicated; and when no review is dated after today, more than \<open>k\<close> days are counted
  exactly when each of today, ..., today - \<open>k\<close> has at least one review, however many
  reviews a day has: a duplicate takes no position of the walk.
\<close>

theorem streak_deduplicates_by_date:
  "(find_collection env = Inr p
      \<longrightarrow> get_current_streak env = Inr (streak_from_rows (review_rows env) (clock_today env)))
   \<and> review_rows env = dedup_by_date (rev (sort (event_dates env)))
   \<and> distinct (review_rows env)
   \<and> (event_dates env' = dedup_by_date (event_dates env) \<and> clock_today env' = clock_today env
        \<and> path_exists env' = path_exists env
      \<longrightarrow> get_current_streak env' = get_current_streak env)
   \<and> ((\<forall>d\<in>set (event_dates env). d \<le> clock_today env)
      \<longrightarrow> (\<forall>k. (int k < streak_from_rows (review_rows env) (clock_today env))
                = (\<forall>j\<le>k. clock_today env - int j \<in> set (event_dates env))))"
proof (intro conjI impI allI)
  assume "find_collection env = Inr p"
  then show "get_current_streak env = Inr (streak_from_rows (review_rows env) (clock_today env))"
    by (simp add: get_current_streak_def and_then_def)
next
  show "review_rows env = dedup_by_date (rev (sort (event_dates env)))" by (rule review_rows_dedup)
next
  show "distinct (review_rows env)" by (simp add: review_rows_def)
next
  assume h: "event_dates env' = dedup_by_date (event_dates env) \<and> clock_today env' = clock_today env
        \<and> path_exists env' = path_exists env"
  then have "set (event_dates env') = set (event_dates env)"
    by (simp add: dedup_by_date_def dedup_seen_set)
  then have "review_rows env' = review_rows env" by (rule review_rows_of_set)
  with h show "get_current_streak env' = get_current_streak env"
    by (simp add: get_current_streak_def find_collection_def)
next
  fix k
  assume "\<forall>d\<in>set (event_dates env). d \<le> clock_today env"
  then have b: "\<forall>d\<in>set (review_rows env). d \<le> clock_today env" by (simp add: review_rows_set)
  from lockstep_present[OF review_rows_descending b, of k]
  show "(int k < streak_from_rows (review_rows env) (clock_today env))
          = (\<forall>j\<le>k. clock_today env - int j \<in> set (event_dates env))"
    by (simp add: streak_from_rows_lockstep review_rows_set)
qed

text \<open>
  Three reviews: two on day 100 (at 10 s and 20 s after its midnight) and one on day 99;
  today is day 100.
\<close>

definition two_reviews_today :: anki where
  "two_reviews_today =
     \<lparr>path_exists = (\<lambda>p. p = Local_share), deck_id = Some 1, card_reps = [2, 0],
      revlog = [8640010000, 8640020500, 8553600000],
      local_day = (\<lambda>t. t div 86400), clock_today = 100\<rparr>"

definition one_review_a_day :: anki where
  "one_review_a_day =
     \<lparr>path_exists = (\<lambda>p. p = Local_share), deck_id = Some 1, card_reps = [2, 0],
      revlog = [8640010000, 8553600000],
      local_day = (\<lambda>t. t div 86400), clock_today = 100\<rparr>"

theorem streak_deduplicates_by_date_witness:
  "find_collection two_reviews_today = Inr Local_share
   \<and> event_dates two_reviews_today = [100, 100, 99]
   \<and> review_rows two_reviews_today = [100, 99]
   \<and> event_dates one_review_a_day = dedup_by_date (event_dates two_reviews_today)
   \<and> get_current_streak one_review_a_day = get_current_streak two_reviews_today
   \<and> get_current_streak two_reviews_today = Inr 2"
proof -
  have f: "find_collection two_reviews_today = Inr Local_share"
    by (simp add: find_collection_def two_reviews_today_def)
  have e: "event_dates two_reviews_today = [100, 100, 99]"
    by (simp add: event_dates_def two_reviews_today_def sqlite_div_def)
  have e1: "event_dates one_review_a_day = [100, 99]"
    by (simp add: event_dates_def one_review_a_day_def sqlite_div_def)
  have d: "dedup_by_date [100, 100, 99] = [100, 99]" by (simp add: dedup_by_date_def)
  have s: "rev (sort [100, 100, 99 :: int]) = [100, 100, 99]" by simp
  have c: "clock_today one_review_a_day = clock_today two_reviews_today"
    "path_exists one_review_a_day = path_exists two_reviews_today"
    "clock_today two_reviews_today = 100"
    by (simp_all add: one_review_a_day_def two_reviews_today_def)
  note t = streak_deduplicates_by_date[where env=two_reviews_today and env'=one_review_a_day
      and p=Local_share]
  from t e d s have r: "review_rows two_reviews_today = [100, 99]" by simp
  from t e e1 d c have q: "get_current_streak one_review_a_day = get_current_streak two_reviews_today"
    by simp
  from t f have "get_current_streak two_reviews_today
                   = Inr (streak_from_rows (review_rows two_reviews_today) (clock_today two_reviews_today))"
    by blast
  then have g: "get_current_streak two_reviews_today = Inr 2"
    by (simp add: r c streak_from_rows_def Let_def)
  show ?thesis using f e r e1 d q g by simp
qed

section \<open>update\_vocabulary.py: the badge renderer\<close>

subsection \<open>The regular expressions of the script\<close>

text \<open>
  The two patterns use literals, the lazy \<open>.*?\<close>, the greedy \<open>\d+\<close>, a group of two
  alternatives and concatenation. \<open>ends\<close> lists what is left of the input after each way the
  expression can match at its start, in the order in which the backtracking matcher of
  \<open>re\<close> tries them; the match it reports is the first. \<open>.\<close> matches every character
  but the newline (code point 10). The class of \<open>\d\<close> (the Unicode decimal digits) is a
  parameter, \<open>dig\<close>.
\<close>

datatype rx = Lit ustr | Lazy_any | Digits | Alt rx rx | Seq rx rx

fun lazy_any_ends :: "ustr \<Rightarrow> ustr list" where
  "lazy_any_ends [] = [[]]"
| "lazy_any_ends (c # cs) = (c # cs) # (if c = 10 then [] else lazy_any_ends cs)"

fun digits_ends :: "(nat \<Rightarrow> bool) \<Rightarrow> ustr \<Rightarrow> ustr list" where
  "digits_ends dig [] = []"
| "digits_ends dig (c # cs) = (if dig c then digits_ends dig cs @ [cs] else [])"

primrec ends :: "(nat \<Rightarrow> bool) \<Rightarrow> rx \<Rightarrow> ustr \<Rightarrow> ustr list" where
  "ends dig (Lit l) s = (if prefix l s then [drop (length l) s] else [])"
| "ends dig Lazy_any s = lazy_any_ends s"
| "ends dig Digits s = digits_ends dig s"
| "ends dig (Alt a b) s = ends dig a s @ ends dig b s"
| "ends dig (Seq a b) s = concat (map (ends dig b) (ends dig a s))"

text \<open>A match at the start of \<open>s\<close>: what follows the matched text.\<close>

definition re_match :: "(nat \<Rightarrow> bool) \<Rightarrow> rx \<Rightarrow> ustr \<Rightarrow> ustr option" where
  "re_match dig p s = (case ends dig p s of [] \<Rightarrow> None | r # _ \<Rightarrow> Some r)"

text \<open>\<open>re.search\<close>: is there a match at some position?\<close>

fun re_search :: "(nat \<Rightarrow> bool) \<Rightarrow> rx \<Rightarrow> ustr \<Rightarrow> bool" where
  "re_search dig p [] = (re_match dig p [] \<noteq> None)"
| "re_search dig p (c # cs) = (re_match dig p (c # cs) \<noteq> None \<or> re_search dig p cs)"

text \<open>
  \<open>re.sub\<close>: from left to right, every match is replaced and the scan goes on after it;
  a character at which nothing matches is copied. (An empty match is replaced and the
  next character copied; the patterns of the script never match the empty string.)
\<close>

function re_sub :: "(nat \<Rightarrow> bool) \<Rightarrow> rx \<Rightarrow> ustr \<Rightarrow> ustr \<Rightarrow> ustr" where
  "re_sub dig p repl [] = (if re_match dig p [] \<noteq> None then repl else [])"
| "re_sub dig p repl (c # cs) =
     (case re_match dig p (c # cs) of
        None \<Rightarrow> c # re_sub dig p repl cs
      | Some r \<Rightarrow>
          if length r \<le> length cs then repl @ re_sub dig p repl r
          else repl @ c # re_sub dig p repl cs)"
  by pat_completeness auto
termination
  by (relation "measure (\<lambda>(dig, p, repl, s). length s)") auto

definition zh_vocabulary :: ustr where
  "zh_vocabulary = [35789, 27719]"

definition vocab_pattern :: rx where
  "vocab_pattern =
     Seq (Lit (u ''!['')) (Seq Lazy_any (Seq (Lit (u ''](https://img.shields.io/badge/''))
       (Seq (Alt (Lit zh_vocabulary) (Lit (u ''Anki%20Chinese%20Cards'')))
         (Seq (Lit (u ''-'')) (Seq Digits (Lit (u ''-blue)'')))))))"

definition streak_pattern :: rx where
  "streak_pattern =
     Seq (Lit (u ''![Day Streak](https://img.shields.io/badge/Day%20Streak-''))
       (Seq Digits (Lit (u ''-orange)'')))"

subsection \<open>Lines\<close>

fun py_join :: "ustr \<Rightarrow> ustr list \<Rightarrow> ustr" where
  "py_join sep [] = []"
| "py_join sep [l] = l"
| "py_join sep (l # m # ls) = l @ sep @ py_join sep (m # ls)"

text \<open>\<open>xs.insert(i, x)\<close> for \<open>i \<ge> 0\<close>: before position \<open>i\<close>, at the end when the list is shorter.\<close>

definition py_insert :: "nat \<Rightarrow> 'a \<Rightarrow> 'a list \<Rightarrow> 'a list" where
  "py_insert i x xs = take i xs @ x # drop i xs"

text \<open>The loop that puts the streak badge after the first line that names the vocabulary badge.\<close>

fun insert_after_vocab_line :: "ustr \<Rightarrow> ustr list \<Rightarrow> ustr list" where
  "insert_after_vocab_line badge [] = []"
| "insert_after_vocab_line badge (line # rest) =
     (if sublist (u ''Anki Chinese Cards'') line \<or> sublist zh_vocabulary line
      then line # badge # rest
      else line # insert_after_vocab_line badge rest)"

subsection \<open>\<open>update_readme_badge\<close>\<close>

text \<open>
  The function reads \<open>README.md\<close>, transforms its text and writes it back; the model is
  the transformation of the text.
\<close>

definition vocab_badge_markdown :: "int \<Rightarrow> ustr" where
  "vocab_badge_markdown word_count =
     u ''![Anki Chinese Cards]('' @
     (u ''https://img.shields.io/badge/Anki%20Chinese%20Cards-'' @ py_str_int word_count @ u ''-blue'')
     @ u '')''"

definition streak_badge_markdown :: "int \<Rightarrow> ustr" where
  "streak_badge_markdown streak =
     u ''![Day Streak]('' @
     (u ''https://img.shields.io/badge/Day%20Streak-'' @ py_str_int streak @ u ''-orange'')
     @ u '')''"

definition update_vocab_badge :: "(nat \<Rightarrow> bool) \<Rightarrow> int \<Rightarrow> ustr \<Rightarrow> ustr" where
  "update_vocab_badge dig word_count content =
     (if re_search dig vocab_pattern content
      then re_sub dig vocab_pattern (vocab_badge_markdown word_count) content
      else py_join [10]
             (py_insert 2 (vocab_badge_markdown word_count) (py_insert 1 [] (split_on [10] content))))"

definition update_streak_badge :: "(nat \<Rightarrow> bool) \<Rightarrow> int \<Rightarrow> ustr \<Rightarrow> ustr" where
  "update_streak_badge dig streak content =
     (if re_search dig streak_pattern content
      then re_sub dig streak_pattern (streak_badge_markdown streak) content
      else py_join [10] (insert_after_vocab_line (streak_badge_markdown streak) (split_on [10] content)))"

definition update_readme_badge :: "(nat \<Rightarrow> bool) \<Rightarrow> int \<Rightarrow> int \<Rightarrow> ustr \<Rightarrow> ustr" where
  "update_readme_badge dig word_count streak content =
     update_streak_badge dig streak (update_vocab_badge dig word_count content)"

text \<open>The digits of ASCII, on which every version of the class of \<open>\d\<close> agrees.\<close>

definition ascii_digit :: "nat \<Rightarrow> bool" where
  "ascii_digit c = (48 \<le> c \<and> c \<le> 57)"

subsection \<open>\<open>main\<close> of update\_vocabulary.py\<close>

text \<open>
  \<open>readme\<close> is the text of \<open>README.md\<close>, \<open>None\<close> when the file cannot be read. The result is
  the exit status and the text of the file afterwards; every exception ends in status 1.
\<close>

definition vocabulary_main :: "(nat \<Rightarrow> bool) \<Rightarrow> anki \<Rightarrow> ustr option \<Rightarrow> int \<times> ustr option" where
  "vocabulary_main dig env readme =
     (case get_seen_words_count env of
        Inl e \<Rightarrow> (1, readme)
      | Inr word_count \<Rightarrow>
          (case get_current_streak env of
             Inl e \<Rightarrow> (1, readme)
           | Inr streak \<Rightarrow>
               (case readme of
                  None \<Rightarrow> (1, None)
                | Some content \<Rightarrow> (0, Some (update_readme_badge dig word_count streak content)))))"

subsection \<open>A missing data source in the two scripts\<close>

definition missing_file :: "ustr \<Rightarrow> csv_read" where
  "missing_file f = No_such_file"

definition unreadable_file :: "ustr \<Rightarrow> csv_read" where
  "unreadable_file f = Read_failed (u ''invalid start byte'')"

definition no_collection :: anki where
  "no_collection = \<lparr>path_exists = (\<lambda>p. False), deck_id = Some 1, card_reps = [3, 0, 1],
                     revlog = [8640010000, 8553600000], local_day = (\<lambda>t. t div 86400),
                     clock_today = 100\<rparr>"

text \<open>
  C10. When \<open>open\<close> raises \<open>FileNotFoundError\<close>, or opening or reading the file raises
  any other exception, \<open>calculate_total_duration\<close> catches it, prints one message and
  returns 0; nothing was attempted and the function ends normally. The metrics script
  differs: without a collection \<open>get_seen_words_count\<close> raises \<open>FileNotFoundError\<close> and
  \<open>main\<close> ends with exit status 1, leaving the README as it was.
\<close>

theorem unreadable_csv_returns_zero:
  "(fs csv_file = No_such_file \<longrightarrow>
      calculate_total_duration fs ydl csv_file
        = (0, \<lparr>total_seconds = 0, video_count = 0, successful_count = 0,
               printed = [Banner csv_file, Rule, File_not_found csv_file]\<rparr>))
   \<and> (fs csv_file = Read_failed e \<longrightarrow>
      calculate_total_duration fs ydl csv_file
        = (0, \<lparr>total_seconds = 0, video_count = 0, successful_count = 0,
               printed = [Banner csv_file, Rule, Read_error e]\<rparr>))
   \<and> (\<not> path_exists env AppData_Roaming \<and> \<not> path_exists env Local_share
        \<and> \<not> path_exists env Library_Application_Support \<longrightarrow>
      get_seen_words_count env = Inl FileNotFoundError
      \<and> vocabulary_main dig env readme = (1, readme))"
  by (simp add: calculate_total_duration_def vocabulary_main_def get_seen_words_count_def
      find_collection_def and_then_def)

theorem unreadable_csv_returns_zero_witness:
  "missing_file (u ''urls.csv'') = No_such_file
   \<and> fst (calculate_total_duration missing_file middle_fails_lookup (u ''urls.csv'')) = 0
   \<and> unreadable_file (u ''urls.csv'') = Read_failed (u ''invalid start byte'')
   \<and> fst (calculate_total_duration unreadable_file middle_fails_lookup (u ''urls.csv'')) = 0
   \<and> \<not> path_exists no_collection AppData_Roaming \<and> \<not> path_exists no_collection Local_share
   \<and> \<not> path_exists no_collection Library_Application_Support
   \<and> vocabulary_main ascii_digit no_collection (Some (u ''# Hi'')) = (1, Some (u ''# Hi''))"
proof -
  have a: "missing_file (u ''urls.csv'') = No_such_file" by (simp add: missing_file_def)
  have b: "unreadable_file (u ''urls.csv'') = Read_failed (u ''invalid start byte'')"
    by (simp add: unreadable_file_def)
  have c: "\<not> path_exists no_collection AppData_Roaming \<and> \<not> path_exists no_collection Local_share
   \<and> \<not> path_exists no_collection Library_Application_Support"
    by (simp add: no_collection_def)
  from unreadable_csv_returns_zero[where fs=missing_file and csv_file="u ''urls.csv''"
      and ydl=middle_fails_lookup] a
  have 1: "fst (calculate_total_duration missing_file middle_fails_lookup (u ''urls.csv'')) = 0"
    by simp
  from unreadable_csv_returns_zero[where fs=unreadable_file and csv_file="u ''urls.csv''"
      and ydl=middle_fails_lookup and e="u ''invalid start byte''"] b
  have 2: "fst (calculate_total_duration unreadable_file middle_fails_lookup (u ''urls.csv'')) = 0"
    by simp
  from unreadable_csv_returns_zero[where env=no_collection and dig=ascii_digit
      and readme="Some (u ''# Hi'')"] c
  have 3: "vocabulary_main ascii_digit no_collection (Some (u ''# Hi'')) = (1, Some (u ''# Hi''))"
    by blast
  show ?thesis using a b c 1 2 3 by blast
qed

subsection \<open>Matching and lines\<close>

fun nl_free :: "rx \<Rightarrow> bool" where
  "nl_free (Lit l) = (10 \<notin> set l)"
| "nl_free Lazy_any = True"
| "nl_free Digits = True"
| "nl_free (Alt a b) = (nl_free a \<and> nl_free b)"
| "nl_free (Seq a b) = (nl_free a \<and> nl_free b)"

lemma prefix_before_newline:
  "10 \<notin> set l \<Longrightarrow> prefix l (x @ 10 # y) = prefix l x"
proof (induction l arbitrary: x)
  case Nil
  show ?case by simp
next
  case (Cons a l)
  then show ?case by (cases x) auto
qed

lemma lazy_any_ends_line:
  "lazy_any_ends (x @ 10 # y) = map (\<lambda>r. r @ 10 # y) (lazy_any_ends x)"
  by (induction x) auto

lemma digits_ends_line:
  "\<not> dig 10 \<Longrightarrow> digits_ends dig (x @ 10 # y) = map (\<lambda>r. r @ 10 # y) (digits_ends dig x)"
  by (induction x) auto

lemma ends_line:
  "\<not> dig 10 \<Longrightarrow> nl_free p \<Longrightarrow> ends dig p (x @ 10 # y) = map (\<lambda>r. r @ 10 # y) (ends dig p x)"
proof (induction p arbitrary: x)
  case (Lit l)
  then have "prefix l (x @ 10 # y) = prefix l x" by (simp add: prefix_before_newline)
  moreover have "prefix l x \<Longrightarrow> drop (length l) (x @ 10 # y) = drop (length l) x @ 10 # y"
    by (auto simp: prefix_def)
  ultimately show ?case by simp
next
  case Lazy_any
  show ?case by (simp add: lazy_any_ends_line)
next
  case Digits
  then show ?case by (simp add: digits_ends_line)
next
  case (Alt a b)
  then show ?case by simp
next
  case (Seq a b)
  then show ?case by (simp add: map_concat comp_def)
qed

lemma lazy_any_ends_suffix: "r \<in> set (lazy_any_ends s) \<Longrightarrow> suffix r s"
  by (induction s) (auto simp: suffix_Cons split: if_splits)

lemma digits_ends_suffix: "r \<in> set (digits_ends dig s) \<Longrightarrow> suffix r s"
  by (induction s) (auto simp: suffix_Cons split: if_splits)

lemma ends_suffix: "r \<in> set (ends dig p s) \<Longrightarrow> suffix r s"
proof (induction p arbitrary: r s)
  case (Lit l)
  then show ?case by (auto simp: suffix_drop split: if_splits)
next
  case Lazy_any
  then show ?case by (simp add: lazy_any_ends_suffix)
next
  case Digits
  then show ?case by (simp add: digits_ends_suffix)
next
  case (Alt a b)
  then show ?case by auto
next
  case (Seq a b)
  then show ?case by auto (meson suffix_order.trans)
qed

lemma re_match_in_ends: "re_match dig p s = Some r \<Longrightarrow> r \<in> set (ends dig p s)"
  by (auto simp: re_match_def split: list.splits)

lemma re_match_None_ends: "(re_match dig p s = None) = (ends dig p s = [])"
  by (auto simp: re_match_def split: list.splits)

lemma re_match_line:
  "\<not> dig 10 \<Longrightarrow> nl_free p \<Longrightarrow>
     re_match dig p (x @ 10 # y) = map_option (\<lambda>r. r @ 10 # y) (re_match dig p x)"
  by (simp add: re_match_def ends_line split: list.splits)

subsection \<open>Substitution with a pattern that starts at an exclamation mark\<close>

text \<open>
  What the two patterns and their badges share: a match starts at \<open>!\<close> (code point 33) and
  stays on one line, the badge matches as a whole whatever follows it, and the badge has no
  second \<open>!\<close> and no newline.
\<close>

definition badge_rx :: "(nat \<Rightarrow> bool) \<Rightarrow> rx \<Rightarrow> ustr \<Rightarrow> bool" where
  "badge_rx dig p b =
     ((\<forall>s. re_match dig p s \<noteq> None \<longrightarrow> (\<exists>cs. s = 33 # cs))
      \<and> (\<forall>s r. re_match dig p s = Some r \<longrightarrow> length r < length s)
      \<and> (\<forall>x y. re_match dig p (x @ 10 # y) = map_option (\<lambda>r. r @ 10 # y) (re_match dig p x))
      \<and> (\<forall>r. re_match dig p (b @ r) = Some r)
      \<and> (\<exists>b'. b = 33 # b' \<and> 33 \<notin> set b' \<and> 10 \<notin> set b'))"

lemma brx_head: "badge_rx dig p b \<Longrightarrow> re_match dig p s = Some r \<Longrightarrow> \<exists>cs. s = 33 # cs"
  by (simp add: badge_rx_def)

lemma brx_other: "badge_rx dig p b \<Longrightarrow> c \<noteq> 33 \<Longrightarrow> re_match dig p (c # cs) = None"
  unfolding badge_rx_def by (metis list.inject)

lemma brx_nil: "badge_rx dig p b \<Longrightarrow> re_match dig p [] = None"
  unfolding badge_rx_def by (metis list.distinct(1))

lemma brx_len: "badge_rx dig p b \<Longrightarrow> re_match dig p s = Some r \<Longrightarrow> length r < length s"
  by (simp add: badge_rx_def)

lemma brx_line:
  "badge_rx dig p b \<Longrightarrow>
     re_match dig p (x @ 10 # y) = map_option (\<lambda>r. r @ 10 # y) (re_match dig p x)"
  by (simp add: badge_rx_def)

lemma brx_self: "badge_rx dig p b \<Longrightarrow> re_match dig p (b @ r) = Some r"
  by (simp add: badge_rx_def)

lemma brx_badge: "badge_rx dig p b \<Longrightarrow> \<exists>b'. b = 33 # b' \<and> 33 \<notin> set b' \<and> 10 \<notin> set b'"
  by (simp add: badge_rx_def)

declare re_sub.simps [simp del]

lemma re_sub_Nil: "badge_rx dig p b \<Longrightarrow> re_sub dig p b [] = []"
  by (simp add: re_sub.simps brx_nil)

lemma re_sub_None:
  "re_match dig p (c # cs) = None \<Longrightarrow> re_sub dig p b (c # cs) = c # re_sub dig p b cs"
  by (simp add: re_sub.simps)

lemma re_sub_Some:
  "badge_rx dig p b \<Longrightarrow> re_match dig p (c # cs) = Some r \<Longrightarrow>
     re_sub dig p b (c # cs) = b @ re_sub dig p b r"
  using brx_len[of dig p b "c # cs" r] by (simp add: re_sub.simps)

lemma re_sub_cases [consumes 1, case_names Nil None Some]:
  assumes "badge_rx dig p b"
    and "P []"
    and "\<And>c cs. re_match dig p (c # cs) = None \<Longrightarrow> P cs \<Longrightarrow> P (c # cs)"
    and "\<And>c cs r. re_match dig p (c # cs) = Some r \<Longrightarrow> P r \<Longrightarrow> P (c # cs)"
  shows "P s"
proof (induction s rule: length_induct)
  case (1 s)
  show ?case
  proof (cases s)
    case Nil
    with assms(2) show ?thesis by simp
  next
    case (Cons c cs)
    show ?thesis
    proof (cases "re_match dig p (c # cs)")
      case None
      from "1.IH" Cons have "P cs" by simp
      with assms(3) None Cons show ?thesis by simp
    next
      case (Some r)
      from brx_len[OF assms(1) Some] "1.IH" Cons have "P r" by simp
      with assms(4) Some Cons show ?thesis by simp
    qed
  qed
qed

lemma re_sub_pass:
  "badge_rx dig p b \<Longrightarrow> 33 \<notin> set x \<Longrightarrow> re_sub dig p b (x @ y) = x @ re_sub dig p b y"
  by (induction x) (auto simp: re_sub_None brx_other)

lemma re_sub_badge:
  assumes "badge_rx dig p b" shows "re_sub dig p b (b @ y) = b @ re_sub dig p b y"
proof -
  from brx_badge[OF assms] obtain b' where b: "b = 33 # b'" by blast
  from brx_self[OF assms, of y] b have "re_match dig p (33 # b' @ y) = Some y" by simp
  from re_sub_Some[OF assms this] b show ?thesis by simp
qed

lemma re_sub_prefix:
  assumes "badge_rx dig p b" and "33 \<notin> set t"
  shows "prefix t (re_sub dig p b s) \<Longrightarrow> prefix t s"
  using assms(1,2)
proof (induction s arbitrary: t rule: re_sub_cases)
  case Nil
  then show ?case by (simp add: re_sub_Nil[OF assms(1)])
next
  case (None c cs)
  then show ?case by (cases t) (auto simp: re_sub_None)
next
  case (Some c cs r)
  have e: "re_sub dig p b (c # cs) = b @ re_sub dig p b r" by (rule re_sub_Some[OF assms(1) Some(1)])
  from brx_badge[OF assms(1)] obtain b' where b: "b = 33 # b'" by blast
  from Some.prems(1) have "prefix t (33 # b' @ re_sub dig p b r)" unfolding e by (simp add: b)
  with Some.prems(2) show ?case by (cases t) auto
qed

lemma re_sub_no_match: "\<not> re_search dig p s \<Longrightarrow> badge_rx dig p b \<Longrightarrow> re_sub dig p b s = s"
  by (induction s) (auto simp: re_sub_None re_sub_Nil)

lemma re_sub_line:
  assumes "badge_rx dig p b"
  shows "re_sub dig p b (x @ 10 # y) = re_sub dig p b x @ 10 # re_sub dig p b y"
  using assms
proof (induction x rule: re_sub_cases)
  case Nil
  show ?case using assms by (simp add: re_sub_Nil re_sub_None brx_other)
next
  case (None c cs)
  then have "re_match dig p ((c # cs) @ 10 # y) = None" by (simp only: brx_line[OF assms]) simp
  with None show ?case by (simp add: re_sub_None)
next
  case (Some c cs r)
  then have "re_match dig p ((c # cs) @ 10 # y) = Some (r @ 10 # y)"
    by (simp only: brx_line[OF assms]) simp
  then have "re_sub dig p b ((c # cs) @ 10 # y) = b @ re_sub dig p b (r @ 10 # y)"
    using re_sub_Some[OF assms] by simp
  with Some show ?case by (simp add: re_sub_Some[OF assms])
qed

lemma re_search_line:
  assumes "badge_rx dig p b"
  shows "re_search dig p (x @ 10 # y) = (re_search dig p x \<or> re_search dig p y)"
proof (induction x)
  case Nil
  show ?case using assms by (simp add: brx_other brx_nil)
next
  case (Cons c cs)
  have "re_match dig p ((c # cs) @ 10 # y) = map_option (\<lambda>r. r @ 10 # y) (re_match dig p (c # cs))"
    by (rule brx_line[OF assms])
  then have "(re_match dig p (c # cs @ 10 # y) \<noteq> None) = (re_match dig p (c # cs) \<noteq> None)" by simp
  with Cons show ?case by simp
qed

lemma re_search_append: "re_search dig p y \<Longrightarrow> re_search dig p (x @ y)"
  by (induction x) simp_all

lemma re_search_badge: "badge_rx dig p b \<Longrightarrow> re_search dig p (x @ b @ y)"
proof (rule re_search_append)
  assume a: "badge_rx dig p b"
  from brx_badge[OF a] obtain b' where "b = 33 # b'" by blast
  with brx_self[OF a, of y] show "re_search dig p (b @ y)" by simp
qed

lemma re_sub_has_badge:
  "re_search dig p s \<Longrightarrow> badge_rx dig p b \<Longrightarrow> \<exists>x y. re_sub dig p b s = x @ b @ y"
proof (induction s)
  case Nil
  then show ?case by (simp add: brx_nil)
next
  case (Cons c cs)
  show ?case
  proof (cases "re_match dig p (c # cs)")
    case None
    with Cons obtain x y where "re_sub dig p b cs = x @ b @ y" by auto
    with None have "re_sub dig p b (c # cs) = (c # x) @ b @ y" by (simp add: re_sub_None)
    then show ?thesis by blast
  next
    case (Some r)
    from re_sub_Some[OF Cons.prems(2) Some] have "re_sub dig p b (c # cs) = [] @ b @ re_sub dig p b r"
      by simp
    then show ?thesis by blast
  qed
qed

text \<open>A text that substitution leaves alone: each match in it is the badge itself.\<close>

lemma re_sub_fixed_match:
  assumes "badge_rx dig p b" and "re_sub dig p b s = s" and "re_match dig p s = Some r"
  shows "s = b @ r \<and> re_sub dig p b r = r"
proof -
  from brx_head[OF assms(1,3)] obtain cs where s: "s = 33 # cs" by blast
  from re_sub_Some[OF assms(1)] assms(3) s have e: "re_sub dig p b s = b @ re_sub dig p b r" by simp
  with assms(2) have "s = b @ re_sub dig p b r" by simp
  with brx_self[OF assms(1), of "re_sub dig p b r"] assms(3) have "re_sub dig p b r = r" by simp
  with e assms(2) show ?thesis by simp
qed

lemma re_sub_fixed_tl:
  assumes "badge_rx dig p b" and "re_sub dig p b (c # s) = c # s"
  shows "re_sub dig p b s = s"
proof (cases "re_match dig p (c # s)")
  case None
  with assms(2) show ?thesis by (simp add: re_sub_None)
next
  case (Some r)
  from re_sub_fixed_match[OF assms Some] have e: "c # s = b @ r" and f: "re_sub dig p b r = r"
    by simp_all
  from brx_badge[OF assms(1)] obtain b' where b: "b = 33 # b'" and n: "33 \<notin> set b'" by blast
  with e have "s = b' @ r" by simp
  with re_sub_pass[OF assms(1) n, of r] f show ?thesis by simp
qed

lemma re_sub_fixed_suffix:
  "badge_rx dig p b \<Longrightarrow> re_sub dig p b (x @ s) = x @ s \<Longrightarrow> re_sub dig p b s = s"
  by (induction x) (auto dest: re_sub_fixed_tl)

lemma re_sub_fixed_line:
  assumes "badge_rx dig p b" and "re_sub dig p b (x @ 10 # y) = x @ 10 # y"
  shows "re_sub dig p b x = x \<and> re_sub dig p b y = y"
proof -
  from re_sub_fixed_suffix[OF assms(1), of "x @ [10]" y] assms(2) have y: "re_sub dig p b y = y"
    by simp
  from re_sub_line[OF assms(1), of x y] assms(2) y have "re_sub dig p b x @ 10 # y = x @ 10 # y"
    by simp
  then have "re_sub dig p b x = x" by simp
  with y show ?thesis by simp
qed

lemma re_sub_idem:
  assumes "badge_rx dig p b"
    and keep: "\<And>c cs. re_match dig p (c # cs) = None \<Longrightarrow>
                 re_match dig p (c # re_sub dig p b cs) = None"
  shows "re_sub dig p b (re_sub dig p b s) = re_sub dig p b s"
  using assms(1)
proof (induction s rule: re_sub_cases)
  case Nil
  show ?case by (simp add: re_sub_Nil[OF assms(1)])
next
  case (None c cs)
  from keep[OF None(1)] None show ?case by (simp add: re_sub_None)
next
  case (Some c cs r)
  then show ?case by (simp add: re_sub_Some[OF assms(1)] re_sub_badge[OF assms(1)])
qed

subsection \<open>The texts an expression matches\<close>

fun matches :: "(nat \<Rightarrow> bool) \<Rightarrow> rx \<Rightarrow> ustr \<Rightarrow> bool" where
  "matches dig (Lit l) t = (t = l)"
| "matches dig Lazy_any t = (10 \<notin> set t)"
| "matches dig Digits t = (t \<noteq> [] \<and> (\<forall>c\<in>set t. dig c))"
| "matches dig (Alt a b) t = (matches dig a t \<or> matches dig b t)"
| "matches dig (Seq a b) t = (\<exists>t1 t2. t = t1 @ t2 \<and> matches dig a t1 \<and> matches dig b t2)"

lemma lazy_any_ends_iff: "(r \<in> set (lazy_any_ends s)) = (\<exists>t. s = t @ r \<and> 10 \<notin> set t)"
proof (induction s)
  case Nil
  show ?case by auto
next
  case (Cons c cs)
  show ?case
  proof
    assume "r \<in> set (lazy_any_ends (c # cs))"
    then consider "r = c # cs" | "c \<noteq> 10" "r \<in> set (lazy_any_ends cs)" by (auto split: if_splits)
    then show "\<exists>t. c # cs = t @ r \<and> 10 \<notin> set t"
    proof cases
      case 1
      then have "c # cs = [] @ r \<and> 10 \<notin> set []" by simp
      then show ?thesis by blast
    next
      case 2
      with Cons obtain t where "cs = t @ r" "10 \<notin> set t" by blast
      with 2 have "c # cs = (c # t) @ r \<and> 10 \<notin> set (c # t)" by simp
      then show ?thesis by blast
    qed
  next
    assume "\<exists>t. c # cs = t @ r \<and> 10 \<notin> set t"
    then obtain t where t: "c # cs = t @ r" "10 \<notin> set t" by blast
    show "r \<in> set (lazy_any_ends (c # cs))"
    proof (cases t)
      case Nil
      with t have "r = c # cs" by simp
      then show ?thesis by simp
    next
      case (Cons a t')
      with t have "c = a" "cs = t' @ r" "10 \<notin> set t'" "c \<noteq> 10" by auto
      with Cons.IH show ?thesis by auto
    qed
  qed
qed

lemma digits_ends_iff:
  "(r \<in> set (digits_ends dig s)) = (\<exists>t. s = t @ r \<and> t \<noteq> [] \<and> (\<forall>c\<in>set t. dig c))"
proof (induction s)
  case Nil
  show ?case by auto
next
  case (Cons c cs)
  show ?case
  proof
    assume "r \<in> set (digits_ends dig (c # cs))"
    then consider "dig c" "r = cs" | "dig c" "r \<in> set (digits_ends dig cs)"
      by (auto split: if_splits)
    then show "\<exists>t. c # cs = t @ r \<and> t \<noteq> [] \<and> (\<forall>c\<in>set t. dig c)"
    proof cases
      case 1
      then have "c # cs = [c] @ r \<and> [c] \<noteq> [] \<and> (\<forall>c\<in>set [c]. dig c)" by simp
      then show ?thesis by blast
    next
      case 2
      with Cons obtain t where "cs = t @ r" "\<forall>c\<in>set t. dig c" by blast
      with 2 have "c # cs = (c # t) @ r \<and> c # t \<noteq> [] \<and> (\<forall>x\<in>set (c # t). dig x)" by simp
      then show ?thesis by blast
    qed
  next
    assume "\<exists>t. c # cs = t @ r \<and> t \<noteq> [] \<and> (\<forall>c\<in>set t. dig c)"
    then obtain t where t: "c # cs = t @ r" "t \<noteq> []" "\<forall>c\<in>set t. dig c" by blast
    then obtain t' where t': "t = c # t'" by (cases t) auto
    with t have d: "dig c" "cs = t' @ r" "\<forall>c\<in>set t'. dig c" by auto
    show "r \<in> set (digits_ends dig (c # cs))"
    proof (cases "t' = []")
      case True
      with d show ?thesis by simp
    next
      case False
      with d Cons.IH have "r \<in> set (digits_ends dig cs)" by blast
      with d show ?thesis by simp
    qed
  qed
qed

lemma ends_iff: "(r \<in> set (ends dig p s)) = (\<exists>t. s = t @ r \<and> matches dig p t)"
proof (induction p arbitrary: r s)
  case (Lit l)
  show ?case by (auto simp: prefix_def)
next
  case Lazy_any
  show ?case by (simp add: lazy_any_ends_iff)
next
  case Digits
  show ?case by (simp add: digits_ends_iff)
next
  case (Alt a b)
  then show ?case by auto
next
  case (Seq a b)
  show ?case
  proof
    assume "r \<in> set (ends dig (Seq a b) s)"
    then obtain x where x: "x \<in> set (ends dig a s)" "r \<in> set (ends dig b x)" by auto
    with Seq obtain t1 t2 where "s = t1 @ x" "matches dig a t1" "x = t2 @ r" "matches dig b t2"
      by blast
    then have "s = (t1 @ t2) @ r \<and> matches dig (Seq a b) (t1 @ t2)" by auto
    then show "\<exists>t. s = t @ r \<and> matches dig (Seq a b) t" by blast
  next
    assume "\<exists>t. s = t @ r \<and> matches dig (Seq a b) t"
    then obtain t1 t2 where t: "s = (t1 @ t2) @ r" "matches dig a t1" "matches dig b t2" by auto
    then have "t2 @ r \<in> set (ends dig a s)" using Seq.IH(1)[of "t2 @ r" s] by auto
    moreover have "r \<in> set (ends dig b (t2 @ r))" using Seq.IH(2)[of r "t2 @ r"] t by auto
    ultimately show "r \<in> set (ends dig (Seq a b) s)" by auto
  qed
qed

lemma re_match_iff: "(re_match dig p s \<noteq> None) = (\<exists>t r. s = t @ r \<and> matches dig p t)"
proof -
  have "(re_match dig p s \<noteq> None) = (\<exists>r. r \<in> set (ends dig p s))"
    by (cases "ends dig p s") (auto simp: re_match_def)
  then show ?thesis by (auto simp: ends_iff)
qed

lemma re_match_text: "re_match dig p s = Some r \<Longrightarrow> \<exists>t. s = t @ r \<and> matches dig p t"
  using re_match_in_ends[of dig p s r] by (simp add: ends_iff)

subsection \<open>The two patterns and their badges\<close>

text \<open>On ASCII the class of \<open>\d\<close> is the ten digits; nothing is assumed beyond ASCII.\<close>

definition digits_on_ascii :: "(nat \<Rightarrow> bool) \<Rightarrow> bool" where
  "digits_on_ascii dig = (\<forall>c<128. dig c = (48 \<le> c \<and> c \<le> 57))"

lemma doa_digit: "digits_on_ascii dig \<Longrightarrow> 48 \<le> c \<Longrightarrow> c \<le> 57 \<Longrightarrow> dig c"
  by (simp add: digits_on_ascii_def)

lemma doa_other: "digits_on_ascii dig \<Longrightarrow> c < 48 \<or> (57 < c \<and> c < 128) \<Longrightarrow> \<not> dig c"
  by (auto simp: digits_on_ascii_def)

lemma digits_of_range: "c \<in> set (digits_of n) \<Longrightarrow> 48 \<le> c \<and> c \<le> 57"
proof (induction n arbitrary: c rule: digits_of.induct)
  case (1 n)
  show ?case
  proof (cases "n < 10")
    case True
    then have "digits_of n = [48 + n]" by (subst digits_of.simps) simp
    with "1.prems" True show ?thesis by simp
  next
    case False
    then have "digits_of n = digits_of (n div 10) @ [48 + n mod 10]"
      by (subst digits_of.simps) simp
    with "1.prems" have "c \<in> set (digits_of (n div 10)) \<or> c = 48 + n mod 10" by auto
    with "1.IH"[OF False] show ?thesis by auto
  qed
qed

lemma digits_of_nonempty: "digits_of n \<noteq> []"
  by (subst digits_of.simps) simp

text \<open>What follows \<open>.*?\<close> in the vocabulary pattern.\<close>

definition vocab_tail :: rx where
  "vocab_tail =
     Seq (Lit (u ''](https://img.shields.io/badge/''))
       (Seq (Alt (Lit zh_vocabulary) (Lit (u ''Anki%20Chinese%20Cards'')))
         (Seq (Lit (u ''-'')) (Seq Digits (Lit (u ''-blue)'')))))"

lemma vocab_pattern_tail: "vocab_pattern = Seq (Lit [33, 91]) (Seq Lazy_any vocab_tail)"
  by (simp add: vocab_pattern_def vocab_tail_def u_def)

definition tail_here :: "(nat \<Rightarrow> bool) \<Rightarrow> ustr \<Rightarrow> bool" where
  "tail_here dig s = (ends dig vocab_tail s \<noteq> [])"

definition has_tail :: "(nat \<Rightarrow> bool) \<Rightarrow> ustr \<Rightarrow> bool" where
  "has_tail dig s = (ends dig (Seq Lazy_any vocab_tail) s \<noteq> [])"

lemma has_tail_Nil: "\<not> has_tail dig []"
  by (simp add: has_tail_def vocab_tail_def u_def)

lemma has_tail_Cons:
  "has_tail dig (c # cs) = (tail_here dig (c # cs) \<or> (c \<noteq> 10 \<and> has_tail dig cs))"
  by (auto simp: has_tail_def tail_here_def)

lemma tail_here_Nil: "\<not> tail_here dig []"
  by (simp add: tail_here_def vocab_tail_def u_def)

lemma tail_here_head: "c \<noteq> 93 \<Longrightarrow> \<not> tail_here dig (c # cs)"
  by (simp add: tail_here_def vocab_tail_def u_def)

lemma has_tail_skip: "\<forall>c\<in>set x. c \<noteq> 93 \<and> c \<noteq> 10 \<Longrightarrow> has_tail dig (x @ y) = has_tail dig y"
  by (induction x) (auto simp: has_tail_Cons tail_here_head)

lemma has_tail_skip1: "c \<noteq> 93 \<Longrightarrow> c \<noteq> 10 \<Longrightarrow> has_tail dig (c # y) = has_tail dig y"
  by (simp add: has_tail_Cons tail_here_head)

lemma tail_here_iff: "tail_here dig s = (\<exists>t r. s = t @ r \<and> matches dig vocab_tail t)"
proof -
  have "tail_here dig s = (\<exists>r. r \<in> set (ends dig vocab_tail s))"
    by (cases "ends dig vocab_tail s") (auto simp: tail_here_def)
  then show ?thesis by (auto simp: ends_iff)
qed

lemma vocab_tail_text:
  assumes "digits_on_ascii dig" and "matches dig vocab_tail t"
  shows "33 \<notin> set t"
proof -
  from assms(2) obtain a ds where t: "t = u ''](https://img.shields.io/badge/'' @ a @ u ''-'' @ ds @ u ''-blue)''"
    and a: "a = zh_vocabulary \<or> a = u ''Anki%20Chinese%20Cards''" and d: "\<forall>c\<in>set ds. dig c"
    by (auto simp: vocab_tail_def)
  from doa_other[OF assms(1), of 33] d have "33 \<notin> set ds" by auto
  with t a show ?thesis by (auto simp: u_def zh_vocabulary_def)
qed

lemma vocab_match_iff:
  "(re_match dig vocab_pattern s \<noteq> None) = (\<exists>s'. s = 33 # 91 # s' \<and> has_tail dig s')"
proof -
  have "prefix [33, 91] s = (\<exists>s'. s = 33 # 91 # s')" by (auto simp: prefix_def)
  then show ?thesis
    by (auto simp: re_match_None_ends vocab_pattern_tail has_tail_def)
qed

lemma vocab_match_None:
  "(re_match dig vocab_pattern s = None) = (\<not> (\<exists>s'. s = 33 # 91 # s' \<and> has_tail dig s'))"
  using vocab_match_iff[of dig s] by blast

text \<open>A text the streak pattern matches.\<close>

definition streak_head :: ustr where
  "streak_head = u ''![Day Streak](https://img.shields.io/badge/Day%20Streak-''"

lemma streak_text:
  "matches dig streak_pattern t =
     (\<exists>ds. t = streak_head @ ds @ u ''-orange)'' \<and> ds \<noteq> [] \<and> (\<forall>c\<in>set ds. dig c))"
  by (auto simp: streak_pattern_def streak_head_def)

lemma streak_text_chars:
  assumes "digits_on_ascii dig" and "matches dig streak_pattern t"
  shows "\<exists>t'. t = 33 # 91 # 68 # t' \<and> 33 \<notin> set t' \<and> 10 \<notin> set t' \<and> (\<forall>y. has_tail dig (t' @ y) = has_tail dig y)"
proof -
  from assms(2) obtain ds where t: "t = streak_head @ ds @ u ''-orange)''" and d: "\<forall>c\<in>set ds. dig c"
    by (auto simp: streak_text)
  from doa_other[OF assms(1), of 33] doa_other[OF assms(1), of 10] doa_other[OF assms(1), of 93] d
  have n: "33 \<notin> set ds" "10 \<notin> set ds" "\<forall>c\<in>set ds. c \<noteq> 93 \<and> c \<noteq> 10" by auto
  let ?h = "u ''ay Streak](https://img.shields.io/badge/Day%20Streak-''"
  let ?t' = "?h @ ds @ u ''-orange)''"
  have 1: "t = 33 # 91 # 68 # ?t'" using t by (simp add: streak_head_def u_def)
  have 2: "33 \<notin> set ?t'" "10 \<notin> set ?t'" using n by (simp_all add: u_def)
  have 3: "has_tail dig (?t' @ y) = has_tail dig y" for y
  proof -
    have a: "has_tail dig (u ''-orange)'' @ y) = has_tail dig y"
      by (simp add: u_def has_tail_skip1)
    have b: "has_tail dig (ds @ u ''-orange)'' @ y) = has_tail dig y"
      using has_tail_skip[OF n(3)] a by simp
    have c: "\<not> tail_here dig (93 # u ''(https://img.shields.io/badge/Day%20Streak-'' @ z)" for z
      by (simp add: tail_here_def vocab_tail_def u_def zh_vocabulary_def)
    have "has_tail dig (u ''ay Streak'' @ 93 # u ''(https://img.shields.io/badge/Day%20Streak-'' @ ds @ u ''-orange)'' @ y)
            = has_tail dig (93 # u ''(https://img.shields.io/badge/Day%20Streak-'' @ ds @ u ''-orange)'' @ y)"
      by (rule has_tail_skip) (simp add: u_def)
    also have "\<dots> = has_tail dig (u ''(https://img.shields.io/badge/Day%20Streak-'' @ ds @ u ''-orange)'' @ y)"
      using c[of "ds @ u ''-orange)'' @ y"] by (simp add: has_tail_Cons)
    also have "\<dots> = has_tail dig (ds @ u ''-orange)'' @ y)"
      by (rule has_tail_skip) (simp add: u_def)
    finally show ?thesis using b by (simp add: u_def)
  qed
  from 1 2 3 show ?thesis by blast
qed

subsection \<open>The badge matches as a whole\<close>

lemma digits_then_literal:
  assumes "\<forall>c\<in>set ds. dig c \<and> c \<noteq> a" and "\<not> dig a"
  shows "concat (map (ends dig (Lit (a # l))) (digits_ends dig (ds @ a # l @ r)))
           = (if ds = [] then [] else [r])"
  using assms(1)
proof (induction ds)
  case Nil
  show ?case using assms(2) by simp
next
  case (Cons d ds)
  let ?f = "ends dig (Lit (a # l))"
  from Cons.prems have "\<forall>c\<in>set ds. dig c \<and> c \<noteq> a" by simp
  from Cons.IH[OF this]
  have ih: "concat (map ?f (digits_ends dig (ds @ a # l @ r))) = (if ds = [] then [] else [r])" .
  from Cons.prems have d: "dig d" by simp
  then have step: "digits_ends dig ((d # ds) @ a # l @ r)
                     = digits_ends dig (ds @ a # l @ r) @ [ds @ a # l @ r]" by simp
  have last: "?f (ds @ a # l @ r) = (if ds = [] then [r] else [])"
  proof (cases ds)
    case Nil
    then show ?thesis by simp
  next
    case (Cons e es)
    with \<open>\<forall>c\<in>set (d # ds). dig c \<and> c \<noteq> a\<close> have "e \<noteq> a" by simp
    with Cons show ?thesis by simp
  qed
  have "concat (map ?f (digits_ends dig ((d # ds) @ a # l @ r)))
          = concat (map ?f (digits_ends dig (ds @ a # l @ r))) @ ?f (ds @ a # l @ r)"
    by (simp only: step map_append concat_append list.map concat.simps append_Nil2)
  also have "\<dots> = [r]" by (simp only: ih last) simp
  finally have "concat (map ?f (digits_ends dig ((d # ds) @ a # l @ r))) = [r]" .
  then show ?case by (metis list.distinct(1))
qed

lemma digits_of_then_literal:
  assumes "digits_on_ascii dig" and "a < 48"
  shows "ends dig (Seq Digits (Lit (a # l))) (digits_of n @ a # l @ r) = [r]"
proof -
  have "\<forall>c\<in>set (digits_of n). dig c \<and> c \<noteq> a"
    using digits_of_range doa_digit[OF assms(1)] assms(2) by fastforce
  moreover have "\<not> dig a" using doa_other[OF assms(1)] assms(2) by blast
  ultimately show ?thesis using digits_then_literal[of "digits_of n" dig a l r] digits_of_nonempty
    by simp
qed

lemma lazy_tail_step:
  "c \<noteq> 93 \<Longrightarrow> c \<noteq> 10 \<Longrightarrow>
     ends dig (Seq Lazy_any vocab_tail) (c # cs) = ends dig (Seq Lazy_any vocab_tail) cs"
  using tail_here_head[of c dig cs] by (simp add: tail_here_def)

lemma vocab_badge_matches:
  assumes "digits_on_ascii dig" and "0 \<le> w"
  shows "re_match dig vocab_pattern (vocab_badge_markdown w @ r) = Some r"
proof -
  let ?ds = "digits_of (nat w)"
  have d: "ends dig (Seq Digits (Lit (u ''-blue)''))) (?ds @ u ''-blue)'' @ r) = [r]"
    using digits_of_then_literal[OF assms(1), of 45 "u ''blue)''" "nat w" r] by (simp add: u_def)
  have t: "ends dig vocab_tail
             (u ''](https://img.shields.io/badge/Anki%20Chinese%20Cards-'' @ ?ds @ u ''-blue)'' @ r) = [r]"
    using d by (simp add: vocab_tail_def u_def zh_vocabulary_def)
  have "ends dig (Seq Lazy_any vocab_tail)
          (u ''Anki Chinese Cards'' @ u ''](https://img.shields.io/badge/Anki%20Chinese%20Cards-'' @ ?ds @ u ''-blue)'' @ r)
        = ends dig (Seq Lazy_any vocab_tail)
          (u ''](https://img.shields.io/badge/Anki%20Chinese%20Cards-'' @ ?ds @ u ''-blue)'' @ r)"
    by (simp add: u_def lazy_tail_step del: ends.simps)
  also have "\<dots> = r # tl \<dots>"
    using t by (simp add: u_def)
  finally have "re_match dig (Seq Lazy_any vocab_tail)
          (u ''Anki Chinese Cards'' @ u ''](https://img.shields.io/badge/Anki%20Chinese%20Cards-'' @ ?ds @ u ''-blue)'' @ r)
        = Some r"
    by (simp add: re_match_def)
  then show ?thesis using assms(2)
    by (simp add: re_match_def vocab_pattern_tail vocab_badge_markdown_def py_str_int_def u_def)
qed

lemma streak_badge_matches:
  assumes "digits_on_ascii dig" and "0 \<le> n"
  shows "re_match dig streak_pattern (streak_badge_markdown n @ r) = Some r"
proof -
  let ?ds = "digits_of (nat n)"
  have d: "ends dig (Seq Digits (Lit (u ''-orange)''))) (?ds @ u ''-orange)'' @ r) = [r]"
    using digits_of_then_literal[OF assms(1), of 45 "u ''orange)''" "nat n" r] by (simp add: u_def)
  then show ?thesis using assms(2)
    by (simp add: re_match_def streak_pattern_def streak_badge_markdown_def py_str_int_def u_def)
qed

lemma vocab_badge_shape:
  "0 \<le> w \<Longrightarrow> \<exists>b'. vocab_badge_markdown w = 33 # b' \<and> 33 \<notin> set b' \<and> 10 \<notin> set b'"
  using digits_of_range[of 33 "nat w"] digits_of_range[of 10 "nat w"]
  by (auto simp: vocab_badge_markdown_def py_str_int_def u_def)

lemma streak_badge_shape:
  "0 \<le> n \<Longrightarrow> \<exists>b'. streak_badge_markdown n = 33 # b' \<and> 33 \<notin> set b' \<and> 10 \<notin> set b'"
  using digits_of_range[of 33 "nat n"] digits_of_range[of 10 "nat n"]
  by (auto simp: streak_badge_markdown_def py_str_int_def u_def)

lemma vocab_badge_rx:
  assumes "digits_on_ascii dig" and "0 \<le> w"
  shows "badge_rx dig vocab_pattern (vocab_badge_markdown w)"
proof -
  have 1: "\<forall>s. re_match dig vocab_pattern s \<noteq> None \<longrightarrow> (\<exists>cs. s = 33 # cs)"
    unfolding vocab_match_iff by blast
  have 2: "\<forall>s r. re_match dig vocab_pattern s = Some r \<longrightarrow> length r < length s"
  proof (intro allI impI)
    fix s r assume "re_match dig vocab_pattern s = Some r"
    from re_match_text[OF this] obtain t where "s = t @ r" "matches dig vocab_pattern t" by blast
    moreover from this have "t \<noteq> []" by (auto simp: vocab_pattern_tail)
    ultimately show "length r < length s" by simp
  qed
  have n: "\<not> dig 10" using doa_other[OF assms(1), of 10] by simp
  have f: "nl_free vocab_pattern" by (simp add: vocab_pattern_def u_def zh_vocabulary_def)
  have 3: "\<forall>x y. re_match dig vocab_pattern (x @ 10 # y)
             = map_option (\<lambda>r. r @ 10 # y) (re_match dig vocab_pattern x)"
    using re_match_line[where dig=dig and p=vocab_pattern, OF n f] by blast
  have 4: "\<forall>r. re_match dig vocab_pattern (vocab_badge_markdown w @ r) = Some r"
    using vocab_badge_matches[OF assms] by blast
  from 1 2 3 4 vocab_badge_shape[OF assms(2)] show ?thesis unfolding badge_rx_def by blast
qed

lemma streak_badge_rx:
  assumes "digits_on_ascii dig" and "0 \<le> n"
  shows "badge_rx dig streak_pattern (streak_badge_markdown n)"
proof -
  have 1: "\<forall>s. re_match dig streak_pattern s \<noteq> None \<longrightarrow> (\<exists>cs. s = 33 # cs)"
  proof (intro allI impI)
    fix s assume "re_match dig streak_pattern s \<noteq> None"
    then obtain t r where "s = t @ r" "matches dig streak_pattern t" unfolding re_match_iff by blast
    with streak_text_chars[OF assms(1)] show "\<exists>cs. s = 33 # cs" by fastforce
  qed
  have 2: "\<forall>s r. re_match dig streak_pattern s = Some r \<longrightarrow> length r < length s"
  proof (intro allI impI)
    fix s r assume "re_match dig streak_pattern s = Some r"
    from re_match_text[OF this] obtain t where "s = t @ r" "matches dig streak_pattern t" by blast
    moreover from this streak_text_chars[OF assms(1)] have "t \<noteq> []" by fastforce
    ultimately show "length r < length s" by simp
  qed
  have n: "\<not> dig 10" using doa_other[OF assms(1), of 10] by simp
  have f: "nl_free streak_pattern" by (simp add: streak_pattern_def u_def)
  have 3: "\<forall>x y. re_match dig streak_pattern (x @ 10 # y)
             = map_option (\<lambda>r. r @ 10 # y) (re_match dig streak_pattern x)"
    using re_match_line[where dig=dig and p=streak_pattern, OF n f] by blast
  have 4: "\<forall>r. re_match dig streak_pattern (streak_badge_markdown n @ r) = Some r"
    using streak_badge_matches[OF assms] by blast
  from 1 2 3 4 streak_badge_shape[OF assms(2)] show ?thesis unfolding badge_rx_def by blast
qed

subsection \<open>Substitution creates no new end of a vocabulary badge\<close>

lemma tail_here_prefix:
  assumes "digits_on_ascii dig" and "badge_rx dig p b" and "tail_here dig (c # re_sub dig p b cs)"
  shows "tail_here dig (c # cs)"
proof -
  from assms(3) obtain t r where t: "c # re_sub dig p b cs = t @ r" "matches dig vocab_tail t"
    by (auto simp: tail_here_iff)
  from vocab_tail_text[OF assms(1) t(2)] have n: "33 \<notin> set t" .
  show ?thesis
  proof (cases t)
    case Nil
    with t(2) have "c # cs = [] @ (c # cs) \<and> matches dig vocab_tail []" by simp
    then show ?thesis unfolding tail_here_iff by blast
  next
    case (Cons a t')
    with t(1) have a: "a = c" and p: "prefix t' (re_sub dig p b cs)" by (auto simp: prefix_def)
    from n Cons have "33 \<notin> set t'" by simp
    from re_sub_prefix[OF assms(2) this p] obtain r' where "cs = t' @ r'" by (auto simp: prefix_def)
    with a Cons have "c # cs = t @ r'" by simp
    with t(2) show ?thesis unfolding tail_here_iff by blast
  qed
qed

lemma has_tail_vocab_sub:
  assumes "digits_on_ascii dig" and br: "badge_rx dig vocab_pattern b"
  shows "has_tail dig (re_sub dig vocab_pattern b s) \<Longrightarrow> has_tail dig s"
  using br
proof (induction s rule: re_sub_cases)
  case Nil
  then show ?case by (simp add: re_sub_Nil[OF br])
next
  case (None c cs)
  from None.prems have "has_tail dig (c # re_sub dig vocab_pattern b cs)"
    by (simp add: re_sub_None[OF None(1)])
  then consider "tail_here dig (c # re_sub dig vocab_pattern b cs)"
    | "c \<noteq> 10" "has_tail dig (re_sub dig vocab_pattern b cs)"
    by (auto simp: has_tail_Cons)
  then show ?case
  proof cases
    case 1
    from tail_here_prefix[OF assms(1) br 1] show ?thesis by (simp add: has_tail_Cons)
  next
    case 2
    with None.IH show ?thesis by (simp add: has_tail_Cons)
  qed
next
  case (Some c cs r)
  then have "re_match dig vocab_pattern (c # cs) \<noteq> None" by simp
  then obtain s' where "c # cs = 33 # 91 # s'" "has_tail dig s'" unfolding vocab_match_iff by blast
  then show ?case by (simp add: has_tail_Cons)
qed

lemma has_tail_streak_sub:
  assumes doa: "digits_on_ascii dig" and br: "badge_rx dig streak_pattern b"
    and bm: "matches dig streak_pattern b"
  shows "has_tail dig (re_sub dig streak_pattern b s) \<Longrightarrow> has_tail dig s"
  using br
proof (induction s rule: re_sub_cases)
  case Nil
  then show ?case by (simp add: re_sub_Nil[OF br])
next
  case (None c cs)
  from None.prems have "has_tail dig (c # re_sub dig streak_pattern b cs)"
    by (simp add: re_sub_None[OF None(1)])
  then consider "tail_here dig (c # re_sub dig streak_pattern b cs)"
    | "c \<noteq> 10" "has_tail dig (re_sub dig streak_pattern b cs)"
    by (auto simp: has_tail_Cons)
  then show ?case
  proof cases
    case 1
    from tail_here_prefix[OF doa br 1] show ?thesis by (simp add: has_tail_Cons)
  next
    case 2
    with None.IH show ?thesis by (simp add: has_tail_Cons)
  qed
next
  case (Some c cs r)
  from streak_text_chars[OF doa bm] obtain b' where
    b: "b = 33 # 91 # 68 # b'" and hb: "\<forall>y. has_tail dig (b' @ y) = has_tail dig y" by blast
  from Some.prems have "has_tail dig (b @ re_sub dig streak_pattern b r)"
    by (simp add: re_sub_Some[OF br Some(1)])
  with b hb have "has_tail dig (re_sub dig streak_pattern b r)"
    by (simp add: has_tail_skip1)
  with Some.IH have hr: "has_tail dig r" by simp
  from re_match_text[OF Some(1)] obtain t where t: "c # cs = t @ r" "matches dig streak_pattern t"
    by blast
  from streak_text_chars[OF doa t(2)] obtain t' where
    "t = 33 # 91 # 68 # t'" and "\<forall>y. has_tail dig (t' @ y) = has_tail dig y" by blast
  with t(1) hr show ?case by (simp add: has_tail_skip1)
qed

lemma streak_badge_text:
  assumes "digits_on_ascii dig" and "0 \<le> n"
  shows "matches dig streak_pattern (streak_badge_markdown n)"
proof -
  have "\<forall>c\<in>set (digits_of (nat n)). dig c"
    using digits_of_range doa_digit[OF assms(1)] by blast
  with assms(2) digits_of_nonempty[of "nat n"] show ?thesis
    unfolding streak_text
    by (intro exI[of _ "digits_of (nat n)"])
       (simp add: streak_badge_markdown_def streak_head_def py_str_int_def u_def)
qed

text \<open>Where nothing matched before, nothing matches after the rest was substituted.\<close>

lemma sub_starts_bracket:
  assumes "badge_rx dig p b" and "re_sub dig p b cs = 91 # s''"
  shows "\<exists>s'. cs = 91 # s' \<and> s'' = re_sub dig p b s'"
proof (cases cs)
  case Nil
  with assms show ?thesis by (simp add: re_sub_Nil)
next
  case (Cons d s')
  show ?thesis
  proof (cases "re_match dig p (d # s')")
    case None
    with assms(2) Cons show ?thesis by (simp add: re_sub_None)
  next
    case (Some r)
    from brx_badge[OF assms(1)] obtain b' where "b = 33 # b'" by blast
    with re_sub_Some[OF assms(1) Some] assms(2) Cons show ?thesis by simp
  qed
qed

lemma vocab_keep_none:
  assumes doa: "digits_on_ascii dig" and br: "badge_rx dig p b"
    and ht: "\<And>s. has_tail dig (re_sub dig p b s) \<Longrightarrow> has_tail dig s"
    and none: "re_match dig vocab_pattern (c # cs) = None"
  shows "re_match dig vocab_pattern (c # re_sub dig p b cs) = None"
proof (rule ccontr)
  assume "re_match dig vocab_pattern (c # re_sub dig p b cs) \<noteq> None"
  then obtain s'' where c: "c = 33" and s: "re_sub dig p b cs = 91 # s''" and h: "has_tail dig s''"
    unfolding vocab_match_iff by blast
  from sub_starts_bracket[OF br s] obtain s' where s': "cs = 91 # s'" "s'' = re_sub dig p b s'"
    by blast
  with h ht have "has_tail dig s'" by blast
  with c s' have "re_match dig vocab_pattern (c # cs) \<noteq> None" unfolding vocab_match_iff by blast
  with none show False by simp
qed

lemma streak_keep_none:
  assumes doa: "digits_on_ascii dig" and br: "badge_rx dig streak_pattern b"
    and none: "re_match dig streak_pattern (c # cs) = None"
  shows "re_match dig streak_pattern (c # re_sub dig streak_pattern b cs) = None"
proof (rule ccontr)
  assume "re_match dig streak_pattern (c # re_sub dig streak_pattern b cs) \<noteq> None"
  then obtain t r where t: "c # re_sub dig streak_pattern b cs = t @ r" "matches dig streak_pattern t"
    unfolding re_match_iff by blast
  from streak_text_chars[OF doa t(2)] obtain t' where t': "t = 33 # 91 # 68 # t'" "33 \<notin> set t'"
    by blast
  with t(1) have c: "c = 33" and p: "prefix (91 # 68 # t') (re_sub dig streak_pattern b cs)"
    by (auto simp: prefix_def)
  from t'(2) have "33 \<notin> set (91 # 68 # t')" by simp
  from re_sub_prefix[OF br this p] obtain r' where "cs = (91 # 68 # t') @ r'" by (auto simp: prefix_def)
  with c t'(1) have "c # cs = t @ r'" by simp
  with t(2) have "re_match dig streak_pattern (c # cs) \<noteq> None" unfolding re_match_iff by blast
  with none show False by simp
qed

lemma vocab_sub_idem:
  assumes "digits_on_ascii dig" and "0 \<le> w"
  shows "re_sub dig vocab_pattern (vocab_badge_markdown w) (re_sub dig vocab_pattern (vocab_badge_markdown w) s)
           = re_sub dig vocab_pattern (vocab_badge_markdown w) s"
proof -
  note br = vocab_badge_rx[OF assms]
  show ?thesis
    by (rule re_sub_idem[OF br])
       (rule vocab_keep_none[OF assms(1) br has_tail_vocab_sub[OF assms(1) br]])
qed

lemma streak_sub_idem:
  assumes "digits_on_ascii dig" and "0 \<le> n"
  shows "re_sub dig streak_pattern (streak_badge_markdown n) (re_sub dig streak_pattern (streak_badge_markdown n) s)
           = re_sub dig streak_pattern (streak_badge_markdown n) s"
proof -
  note br = streak_badge_rx[OF assms]
  show ?thesis
    by (rule re_sub_idem[OF br]) (rule streak_keep_none[OF assms(1) br])
qed

subsection \<open>Replacing streak badges keeps a text the vocabulary substitution leaves alone\<close>

lemma vocab_badge_starts:
  "\<exists>b'. vocab_badge_markdown w = 33 # 91 # 65 # b'"
  by (simp add: vocab_badge_markdown_def u_def)

lemma vocab_fixed_streak_sub:
  assumes doa: "digits_on_ascii dig"
    and bv: "badge_rx dig vocab_pattern (vocab_badge_markdown w)"
    and bs: "badge_rx dig streak_pattern sb"
    and sm: "matches dig streak_pattern sb"
  shows "re_sub dig vocab_pattern (vocab_badge_markdown w) l = l \<Longrightarrow>
         re_sub dig vocab_pattern (vocab_badge_markdown w) (re_sub dig streak_pattern sb l)
           = re_sub dig streak_pattern sb l"
  using bs
proof (induction l rule: re_sub_cases)
  case Nil
  show ?case by (simp add: re_sub_Nil[OF bs] re_sub_Nil[OF bv])
next
  case (None c cs)
  let ?B = "vocab_badge_markdown w"
  from re_sub_fixed_tl[OF bv None.prems] have "re_sub dig vocab_pattern ?B cs = cs" .
  with None.IH have ih: "re_sub dig vocab_pattern ?B (re_sub dig streak_pattern sb cs)
                           = re_sub dig streak_pattern sb cs" by simp
  have s: "re_sub dig streak_pattern sb (c # cs) = c # re_sub dig streak_pattern sb cs"
    by (rule re_sub_None[OF None(1)])
  show ?case
  proof (cases "re_match dig vocab_pattern (c # cs)")
    case None
    have "re_match dig vocab_pattern (c # re_sub dig streak_pattern sb cs) = None"
      by (rule vocab_keep_none[OF doa bs has_tail_streak_sub[OF doa bs sm] None])
    from re_sub_None[OF this] ih s show ?thesis by simp
  next
    case (Some r)
    from re_sub_fixed_match[OF bv None.prems Some]
    have e: "c # cs = ?B @ r" and f: "re_sub dig vocab_pattern ?B r = r" by simp_all
    from brx_badge[OF bv] obtain b' where b: "?B = 33 # b'" and n: "33 \<notin> set b'" by blast
    from e b have c: "c = 33" and cs: "cs = b' @ r" by simp_all
    have 1: "re_sub dig streak_pattern sb cs = b' @ re_sub dig streak_pattern sb r"
      unfolding cs by (rule re_sub_pass[OF bs n])
    from ih have "re_sub dig vocab_pattern ?B (b' @ re_sub dig streak_pattern sb r)
                    = b' @ re_sub dig streak_pattern sb r" unfolding 1 .
    with re_sub_pass[OF bv n, of "re_sub dig streak_pattern sb r"]
    have 2: "re_sub dig vocab_pattern ?B (re_sub dig streak_pattern sb r)
               = re_sub dig streak_pattern sb r" by simp
    have "re_sub dig vocab_pattern ?B (?B @ re_sub dig streak_pattern sb r)
            = ?B @ re_sub dig streak_pattern sb r"
      using re_sub_badge[OF bv, of "re_sub dig streak_pattern sb r"] 2 by simp
    moreover have "c # re_sub dig streak_pattern sb cs = ?B @ re_sub dig streak_pattern sb r"
      using 1 c b by simp
    ultimately show ?thesis using s by simp
  qed
next
  case (Some c cs r)
  let ?B = "vocab_badge_markdown w"
  let ?y = "re_sub dig streak_pattern sb r"
  from re_match_text[OF Some(1)] obtain t where t: "c # cs = t @ r" "matches dig streak_pattern t"
    by blast
  from streak_text_chars[OF doa t(2)] obtain t' where
    t': "t = 33 # 91 # 68 # t'" and ht: "\<forall>y. has_tail dig (t' @ y) = has_tail dig y" by blast
  from streak_text_chars[OF doa sm] obtain sb' where
    sb: "sb = 33 # 91 # 68 # sb'" and nsb: "33 \<notin> set sb'"
    and hsb: "\<forall>y. has_tail dig (sb' @ y) = has_tail dig y" by blast
  from Some.prems t(1) have "re_sub dig vocab_pattern ?B (t @ r) = t @ r" by simp
  from re_sub_fixed_suffix[OF bv this] have "re_sub dig vocab_pattern ?B r = r" .
  with Some.IH have ih: "re_sub dig vocab_pattern ?B ?y = ?y" by simp
  have none: "re_match dig vocab_pattern (c # cs) = None"
  proof (cases "re_match dig vocab_pattern (c # cs)")
    case None
    then show ?thesis .
  next
    case (Some r0)
    from re_sub_fixed_match[OF bv \<open>re_sub dig vocab_pattern ?B (c # cs) = c # cs\<close> Some]
    have "c # cs = ?B @ r0" by simp
    with vocab_badge_starts[of w] t(1) t' show ?thesis by auto
  qed
  have "\<not> has_tail dig r"
  proof
    assume "has_tail dig r"
    with ht have "has_tail dig (68 # t' @ r)" by (simp add: has_tail_skip1)
    with t(1) t' have "re_match dig vocab_pattern (c # cs) \<noteq> None"
      unfolding vocab_match_iff by simp
    with none show False by simp
  qed
  with has_tail_streak_sub[OF doa bs sm] have "\<not> has_tail dig ?y" by blast
  with hsb have "\<not> has_tail dig (68 # sb' @ ?y)" by (simp add: has_tail_skip1)
  then have "re_match dig vocab_pattern (33 # 91 # 68 # sb' @ ?y) = None"
    unfolding vocab_match_None by simp
  from re_sub_None[OF this]
  have "re_sub dig vocab_pattern ?B (33 # 91 # 68 # sb' @ ?y)
          = 33 # re_sub dig vocab_pattern ?B ((91 # 68 # sb') @ ?y)" by simp
  also have "\<dots> = 33 # (91 # 68 # sb') @ re_sub dig vocab_pattern ?B ?y"
    using re_sub_pass[OF bv, of "91 # 68 # sb'" ?y] nsb by simp
  finally have "re_sub dig vocab_pattern ?B (sb @ ?y) = sb @ ?y" using ih sb by simp
  then show ?case by (simp add: re_sub_Some[OF bs Some(1)])
qed

subsection \<open>Lines of a text\<close>

lemma line_induct [case_names Last Line]:
  assumes "\<And>x. 10 \<notin> set x \<Longrightarrow> P x"
    and "\<And>x y. 10 \<notin> set x \<Longrightarrow> P y \<Longrightarrow> P (x @ 10 # y)"
  shows "P (s :: ustr)"
proof (induction s rule: length_induct)
  case (1 s)
  show ?case
  proof (cases "10 \<in> set s")
    case False
    then show ?thesis by (rule assms(1))
  next
    case True
    from split_list_first[OF this] obtain x y where s: "s = x @ 10 # y" and x: "10 \<notin> set x" by blast
    then have "length y < length s" by simp
    with "1.IH" have "P y" by blast
    from assms(2)[OF x this] s show ?thesis by simp
  qed
qed

lemma split_on_last_line: "10 \<notin> set x \<Longrightarrow> split_on [10] x = [x]"
  by (induction x) (auto simp: Let_def)

lemma split_on_line: "10 \<notin> set x \<Longrightarrow> split_on [10] (x @ 10 # y) = x # split_on [10] y"
  by (induction x) (auto simp: Let_def)

lemma py_join_Cons:
  "py_join [10] (l # ls) = (if ls = [] then l else l @ 10 # py_join [10] ls)"
  by (cases ls) simp_all

lemma join_split: "py_join [10] (split_on [10] s) = s"
proof (induction s rule: line_induct)
  case (Last x)
  then show ?case by (simp add: split_on_last_line)
next
  case (Line x y)
  then show ?case by (simp add: split_on_line py_join_Cons split_on_ne)
qed

lemma sublist_line:
  "10 \<notin> set z \<Longrightarrow> sublist z (x @ 10 # y) \<Longrightarrow> sublist z x \<or> sublist z y"
proof (induction x)
  case Nil
  then show ?case by (cases z) (auto simp: sublist_Cons_right)
next
  case (Cons c x)
  from Cons.prems(2) have "prefix z ((c # x) @ 10 # y) \<or> sublist z (x @ 10 # y)"
    by (simp add: sublist_Cons_right)
  then show ?case
  proof
    assume "prefix z ((c # x) @ 10 # y)"
    then have "prefix z (c # x)" using prefix_before_newline[OF Cons.prems(1)] by blast
    then show ?thesis by (auto simp: sublist_Cons_right)
  next
    assume "sublist z (x @ 10 # y)"
    with Cons show ?thesis by (auto simp: sublist_Cons_right)
  qed
qed

text \<open>The two insertions, on a text split at its first newline.\<close>

definition insert_vocab :: "ustr \<Rightarrow> ustr \<Rightarrow> ustr" where
  "insert_vocab b c = py_join [10] (py_insert 2 b (py_insert 1 [] (split_on [10] c)))"

definition insert_streak :: "ustr \<Rightarrow> ustr \<Rightarrow> ustr" where
  "insert_streak b c = py_join [10] (insert_after_vocab_line b (split_on [10] c))"

definition names_vocab :: "ustr \<Rightarrow> bool" where
  "names_vocab line = (sublist (u ''Anki Chinese Cards'') line \<or> sublist zh_vocabulary line)"

lemma insert_vocab_last: "10 \<notin> set x \<Longrightarrow> insert_vocab b x = x @ 10 # 10 # b"
  by (simp add: insert_vocab_def split_on_last_line py_insert_def)

lemma insert_vocab_line: "10 \<notin> set x \<Longrightarrow> insert_vocab b (x @ 10 # y) = x @ 10 # 10 # b @ 10 # y"
proof -
  assume x: "10 \<notin> set x"
  obtain l ls where l: "split_on [10] y = l # ls" using split_on_ne[of "[10]" y] by (cases "split_on [10] y") auto
  have "py_join [10] (l # ls) = y" using join_split[of y] l by simp
  then show ?thesis using x l
    by (simp add: insert_vocab_def split_on_line py_insert_def)
qed

lemma insert_after_ne: "ls \<noteq> [] \<Longrightarrow> insert_after_vocab_line b ls \<noteq> []"
  by (cases ls) auto

lemma insert_streak_last:
  "10 \<notin> set x \<Longrightarrow> insert_streak b x = (if names_vocab x then x @ 10 # b else x)"
  by (simp add: insert_streak_def split_on_last_line names_vocab_def)

lemma insert_streak_line:
  assumes "10 \<notin> set x"
  shows "insert_streak b (x @ 10 # y)
           = (if names_vocab x then x @ 10 # b @ 10 # y else x @ 10 # insert_streak b y)"
proof -
  obtain l ls where l: "split_on [10] y = l # ls" using split_on_ne[of "[10]" y] by (cases "split_on [10] y") auto
  have j: "py_join [10] (l # ls) = y" using join_split[of y] l by simp
  have n: "insert_after_vocab_line b (l # ls) \<noteq> []" by (rule insert_after_ne) simp
  show ?thesis
  proof (cases "names_vocab x")
    case True
    then show ?thesis using assms l j
      by (simp add: insert_streak_def split_on_line names_vocab_def)
  next
    case False
    then have "insert_after_vocab_line b (x # l # ls) = x # insert_after_vocab_line b (l # ls)"
      by (simp add: names_vocab_def)
    then show ?thesis using assms l n False
      by (simp add: insert_streak_def split_on_line py_join_Cons del: insert_after_vocab_line.simps)
  qed
qed

subsection \<open>One run leaves a text that a second run does not change\<close>

lemma streak_sub_keeps_badge:
  assumes doa: "digits_on_ascii dig" and bs: "badge_rx dig streak_pattern sb"
    and b: "b = 33 # 91 # 65 # b''" and nb: "33 \<notin> set b''"
  shows "\<exists>x' y'. re_sub dig streak_pattern sb (x @ b @ y) = x' @ b @ y'"
proof (induction x rule: length_induct)
  case (1 x)
  show ?case
  proof (cases x)
    case Nil
    have "re_match dig streak_pattern (b @ y) = None"
    proof (rule ccontr)
      assume "re_match dig streak_pattern (b @ y) \<noteq> None"
      then obtain t r where t: "b @ y = t @ r" "matches dig streak_pattern t"
        unfolding re_match_iff by blast
      from streak_text_chars[OF doa t(2)] obtain t' where "t = 33 # 91 # 68 # t'" by blast
      with t(1) b show False by simp
    qed
    then have "re_sub dig streak_pattern sb (33 # (91 # 65 # b'') @ y)
                 = 33 # re_sub dig streak_pattern sb ((91 # 65 # b'') @ y)"
      using b by (simp add: re_sub_None)
    also have "\<dots> = 33 # (91 # 65 # b'') @ re_sub dig streak_pattern sb y"
      using re_sub_pass[OF bs, of "91 # 65 # b''" y] nb by simp
    finally have "re_sub dig streak_pattern sb (x @ b @ y) = [] @ b @ re_sub dig streak_pattern sb y"
      using Nil b by simp
    then show ?thesis by blast
  next
    case (Cons c xs)
    show ?thesis
    proof (cases "re_match dig streak_pattern (x @ b @ y)")
      case None
      from "1.IH" Cons obtain x' y' where "re_sub dig streak_pattern sb (xs @ b @ y) = x' @ b @ y'"
        by (metis length_Cons lessI)
      with None Cons have "re_sub dig streak_pattern sb (x @ b @ y) = (c # x') @ b @ y'"
        by (simp add: re_sub_None)
      then show ?thesis by blast
    next
      case (Some r)
      from re_match_text[OF Some] obtain t where t: "x @ b @ y = t @ r" "matches dig streak_pattern t"
        by blast
      from streak_text_chars[OF doa t(2)] obtain t' where t': "t = 33 # 91 # 68 # t'" "33 \<notin> set t'"
        by blast
      from t(1) obtain v where "x = t @ v \<and> v @ b @ y = r \<or> x @ v = t \<and> b @ y = v @ r"
        unfolding append_eq_append_conv2 by blast
      then have "\<exists>v. x = t @ v \<and> r = v @ b @ y"
      proof
        assume "x = t @ v \<and> v @ b @ y = r"
        then show ?thesis by blast
      next
        assume a: "x @ v = t \<and> b @ y = v @ r"
        show ?thesis
        proof (cases v)
          case Nil
          with a have "x = t @ [] \<and> r = [] @ b @ y" by simp
          then show ?thesis by blast
        next
          case (Cons e v')
          with a b have "e = 33" by simp
          with a Cons \<open>x = c # xs\<close> have "33 \<in> set (tl t)" by auto
          with t' show ?thesis by simp
        qed
      qed
      then obtain v where v: "x = t @ v" "r = v @ b @ y" by blast
      with t' have "length v < length x" by simp
      with "1.IH" obtain x' y' where "re_sub dig streak_pattern sb (v @ b @ y) = x' @ b @ y'" by blast
      moreover from Some Cons have "re_sub dig streak_pattern sb (x @ b @ y) = sb @ re_sub dig streak_pattern sb r"
        using re_sub_Some[OF bs, of c "xs @ b @ y" r] by simp
      ultimately have "re_sub dig streak_pattern sb (x @ b @ y) = (sb @ x') @ b @ y'"
        using v by simp
      then show ?thesis by blast
    qed
  qed
qed

lemma vocab_sub_streak_badge:
  assumes doa: "digits_on_ascii dig" and bv: "badge_rx dig vocab_pattern b"
    and sm: "matches dig streak_pattern sb"
  shows "re_sub dig vocab_pattern b sb = sb"
proof -
  from streak_text_chars[OF doa sm] obtain sb' where
    sb: "sb = 33 # 91 # 68 # sb'" and n: "33 \<notin> set sb'"
    and h: "\<forall>y. has_tail dig (sb' @ y) = has_tail dig y" by blast
  from h[rule_format, of "[]"] have "\<not> has_tail dig (68 # sb')"
    by (simp add: has_tail_skip1 has_tail_Nil)
  then have "re_match dig vocab_pattern (33 # 91 # 68 # sb') = None"
    unfolding vocab_match_None by simp
  from re_sub_None[OF this]
  have "re_sub dig vocab_pattern b sb = 33 # re_sub dig vocab_pattern b ((91 # 68 # sb') @ [])"
    using sb by simp
  also have "\<dots> = 33 # (91 # 68 # sb') @ re_sub dig vocab_pattern b []"
    using re_sub_pass[OF bv, of "91 # 68 # sb'" "[]"] n by simp
  finally show ?thesis using sb by (simp add: re_sub_Nil[OF bv])
qed

lemma re_sub_badge_alone: "badge_rx dig p b \<Longrightarrow> re_sub dig p b b = b"
  using re_sub_badge[of dig p b "[]"] by (simp add: re_sub_Nil)

lemma re_search_badge_alone: "badge_rx dig p b \<Longrightarrow> re_search dig p (x @ b)"
  using re_search_badge[of dig p b x "[]"] by simp

lemma vocab_step_fixed:
  assumes doa: "digits_on_ascii dig" and w: "0 \<le> w"
  shows "re_search dig vocab_pattern (update_vocab_badge dig w c)
     \<and> re_sub dig vocab_pattern (vocab_badge_markdown w) (update_vocab_badge dig w c)
         = update_vocab_badge dig w c"
proof (cases "re_search dig vocab_pattern c")
  case True
  note br = vocab_badge_rx[OF doa w]
  from re_sub_has_badge[OF True br] obtain x y where
    "re_sub dig vocab_pattern (vocab_badge_markdown w) c = x @ vocab_badge_markdown w @ y" by blast
  with re_search_badge[OF br, of x y] True vocab_sub_idem[OF doa w, of c]
  show ?thesis by (simp add: update_vocab_badge_def)
next
  case False
  note br = vocab_badge_rx[OF doa w]
  let ?B = "vocab_badge_markdown w"
  have u: "update_vocab_badge dig w c = insert_vocab ?B c"
    using False by (simp add: update_vocab_badge_def insert_vocab_def)
  show ?thesis
  proof (cases "10 \<in> set c")
    case False
    then have i: "insert_vocab ?B c = (c @ [10, 10]) @ ?B" by (simp add: insert_vocab_last)
    have s: "re_search dig vocab_pattern ((c @ [10, 10]) @ ?B)" by (rule re_search_badge_alone[OF br])
    have "re_sub dig vocab_pattern ?B (c @ 10 # [] @ 10 # ?B) = c @ 10 # [] @ 10 # ?B"
      using re_sub_no_match[OF \<open>\<not> re_search dig vocab_pattern c\<close> br]
      by (simp only: re_sub_line[OF br] re_sub_Nil[OF br] re_sub_badge_alone[OF br])
    then show ?thesis using s unfolding u i by simp
  next
    case True
    from split_list_first[OF this] obtain x y where c: "c = x @ 10 # y" and x: "10 \<notin> set x" by blast
    from \<open>\<not> re_search dig vocab_pattern c\<close> c
    have nx: "\<not> re_search dig vocab_pattern x" and ny: "\<not> re_search dig vocab_pattern y"
      using re_search_line[OF br, of x y] by simp_all
    have i: "insert_vocab ?B c = (x @ [10, 10]) @ ?B @ 10 # y"
      unfolding c by (simp add: insert_vocab_line[OF x])
    have s: "re_search dig vocab_pattern ((x @ [10, 10]) @ ?B @ 10 # y)"
      by (rule re_search_badge[OF br])
    have "re_sub dig vocab_pattern ?B (x @ 10 # [] @ 10 # ?B @ 10 # y) = x @ 10 # [] @ 10 # ?B @ 10 # y"
      using re_sub_no_match[OF nx br] re_sub_no_match[OF ny br]
      by (simp only: re_sub_line[OF br] re_sub_Nil[OF br] re_sub_badge_alone[OF br])
    then show ?thesis using s unfolding u i by simp
  qed
qed

lemma insert_streak_vocab_fixed:
  assumes doa: "digits_on_ascii dig" and bv: "badge_rx dig vocab_pattern b"
    and sm: "matches dig streak_pattern sb"
  shows "re_sub dig vocab_pattern b c = c \<Longrightarrow>
           re_sub dig vocab_pattern b (insert_streak sb c) = insert_streak sb c"
proof (induction c rule: line_induct)
  case (Last x)
  then show ?case
    by (simp add: insert_streak_last re_sub_line[OF bv] vocab_sub_streak_badge[OF doa bv sm])
next
  case (Line x y)
  from re_sub_fixed_line[OF bv Line.prems]
  have fx: "re_sub dig vocab_pattern b x = x" and fy: "re_sub dig vocab_pattern b y = y" by simp_all
  with Line.IH have "re_sub dig vocab_pattern b (insert_streak sb y) = insert_streak sb y" by simp
  with fx fy show ?case
    by (simp add: insert_streak_line[OF Line(1)] re_sub_line[OF bv] vocab_sub_streak_badge[OF doa bv sm])
qed

lemma insert_streak_vocab_search:
  assumes bv: "badge_rx dig vocab_pattern b"
  shows "re_search dig vocab_pattern c \<Longrightarrow> re_search dig vocab_pattern (insert_streak sb c)"
proof (induction c rule: line_induct)
  case (Last x)
  then show ?case by (simp add: insert_streak_last re_search_line[OF bv])
next
  case (Line x y)
  then show ?case by (auto simp: insert_streak_line[OF Line(1)] re_search_line[OF bv])
qed

lemma insert_streak_streak_fixed:
  assumes bs: "badge_rx dig streak_pattern sb"
  shows "\<not> re_search dig streak_pattern c \<Longrightarrow>
           re_sub dig streak_pattern sb (insert_streak sb c) = insert_streak sb c"
proof (induction c rule: line_induct)
  case (Last x)
  then show ?case
    by (simp add: insert_streak_last re_sub_line[OF bs] re_sub_no_match[OF _ bs] re_sub_badge_alone[OF bs])
next
  case (Line x y)
  then have nx: "\<not> re_search dig streak_pattern x" and ny: "\<not> re_search dig streak_pattern y"
    using re_search_line[OF bs, of x y] by simp_all
  with Line.IH have "re_sub dig streak_pattern sb (insert_streak sb y) = insert_streak sb y" by simp
  with nx ny show ?case
    by (simp add: insert_streak_line[OF Line(1)] re_sub_line[OF bs] re_sub_no_match[OF _ bs]
        re_sub_badge_alone[OF bs])
qed

lemma insert_streak_streak_search:
  assumes bs: "badge_rx dig streak_pattern sb"
  shows "sublist (u ''Anki Chinese Cards'') c \<Longrightarrow> re_search dig streak_pattern (insert_streak sb c)"
proof (induction c rule: line_induct)
  case (Last x)
  then have "insert_streak sb x = (x @ [10]) @ sb" by (simp add: insert_streak_last names_vocab_def)
  then show ?case using re_search_badge_alone[OF bs, of "x @ [10]"] by simp
next
  case (Line x y)
  show ?case
  proof (cases "names_vocab x")
    case True
    then have "insert_streak sb (x @ 10 # y) = (x @ [10]) @ sb @ 10 # y"
      by (simp add: insert_streak_line[OF Line(1)])
    then show ?thesis using re_search_badge[OF bs, of "x @ [10]" "10 # y"] by simp
  next
    case False
    then have "\<not> sublist (u ''Anki Chinese Cards'') x" by (simp add: names_vocab_def)
    moreover have "10 \<notin> set (u ''Anki Chinese Cards'')" by (simp add: u_def)
    ultimately have "sublist (u ''Anki Chinese Cards'') y" using sublist_line Line.prems by blast
    with Line.IH have "re_search dig streak_pattern (insert_streak sb y)" by simp
    with False show ?thesis
      by (simp add: insert_streak_line[OF Line(1)] re_search_line[OF bs])
  qed
qed

lemma vocab_badge_names: "sublist (u ''Anki Chinese Cards'') (x @ vocab_badge_markdown w @ y)"
proof -
  have "x @ vocab_badge_markdown w @ y
          = (x @ [33, 91]) @ u ''Anki Chinese Cards''
            @ (u ''](https://img.shields.io/badge/Anki%20Chinese%20Cards-'' @ py_str_int w @ u ''-blue)'' @ y)"
    by (simp add: vocab_badge_markdown_def u_def)
  then show ?thesis unfolding sublist_def by blast
qed

lemma streak_step_fixed:
  assumes doa: "digits_on_ascii dig" and w: "0 \<le> w" and n: "0 \<le> n"
    and vs: "re_search dig vocab_pattern c"
    and vf: "re_sub dig vocab_pattern (vocab_badge_markdown w) c = c"
  shows "re_search dig vocab_pattern (update_streak_badge dig n c)
     \<and> re_sub dig vocab_pattern (vocab_badge_markdown w) (update_streak_badge dig n c)
         = update_streak_badge dig n c
     \<and> re_search dig streak_pattern (update_streak_badge dig n c)
     \<and> re_sub dig streak_pattern (streak_badge_markdown n) (update_streak_badge dig n c)
         = update_streak_badge dig n c"
proof -
  note bv = vocab_badge_rx[OF doa w]
  note bs = streak_badge_rx[OF doa n]
  note sm = streak_badge_text[OF doa n]
  let ?B = "vocab_badge_markdown w"
  let ?S = "streak_badge_markdown n"
  from re_sub_has_badge[OF vs bv] vf obtain x y where c: "c = x @ ?B @ y" by metis
  show ?thesis
  proof (cases "re_search dig streak_pattern c")
    case True
    then have u: "update_streak_badge dig n c = re_sub dig streak_pattern ?S c"
      by (simp add: update_streak_badge_def)
    from vocab_badge_starts[of w] obtain b'' where b: "?B = 33 # 91 # 65 # b''" by blast
    from brx_badge[OF bv] b have "33 \<notin> set b''" by auto
    from streak_sub_keeps_badge[OF doa bs b this, of x y] obtain x' y' where
      "re_sub dig streak_pattern ?S c = x' @ ?B @ y'" unfolding c by blast
    then have 1: "re_search dig vocab_pattern (re_sub dig streak_pattern ?S c)"
      using re_search_badge[OF bv, of x' y'] by simp
    have 2: "re_sub dig vocab_pattern ?B (re_sub dig streak_pattern ?S c) = re_sub dig streak_pattern ?S c"
      by (rule vocab_fixed_streak_sub[OF doa bv bs sm vf])
    from re_sub_has_badge[OF True bs] obtain p q where
      "re_sub dig streak_pattern ?S c = p @ ?S @ q" by blast
    then have 3: "re_search dig streak_pattern (re_sub dig streak_pattern ?S c)"
      using re_search_badge[OF bs, of p q] by simp
    have 4: "re_sub dig streak_pattern ?S (re_sub dig streak_pattern ?S c) = re_sub dig streak_pattern ?S c"
      by (rule streak_sub_idem[OF doa n])
    from 1 2 3 4 show ?thesis unfolding u by blast
  next
    case False
    then have u: "update_streak_badge dig n c = insert_streak ?S c"
      by (simp add: update_streak_badge_def insert_streak_def)
    have 1: "re_search dig vocab_pattern (insert_streak ?S c)"
      by (rule insert_streak_vocab_search[OF bv vs])
    have 2: "re_sub dig vocab_pattern ?B (insert_streak ?S c) = insert_streak ?S c"
      by (rule insert_streak_vocab_fixed[OF doa bv sm vf])
    have "sublist (u ''Anki Chinese Cards'') c" unfolding c by (rule vocab_badge_names)
    then have 3: "re_search dig streak_pattern (insert_streak ?S c)"
      by (rule insert_streak_streak_search[OF bs])
    have 4: "re_sub dig streak_pattern ?S (insert_streak ?S c) = insert_streak ?S c"
      by (rule insert_streak_streak_fixed[OF bs False])
    from 1 2 3 4 show ?thesis unfolding u by blast
  qed
qed

lemma ascii_digit_class: "digits_on_ascii ascii_digit"
  by (simp add: digits_on_ascii_def ascii_digit_def)

text \<open>
  C2 (as amended). For every document text, every class of digits that is the ten digits
  on ASCII, and every pair of values that are not negative, a second run of
  \<open>update_readme_badge\<close> with the same values returns the output of the first unchanged;
  so a repeated run adds no badge line.
\<close>

theorem update_readme_badge_idempotent:
  assumes "digits_on_ascii dig" and "0 \<le> word_count" and "0 \<le> streak"
  shows "update_readme_badge dig word_count streak (update_readme_badge dig word_count streak content)
           = update_readme_badge dig word_count streak content"
proof -
  let ?c1 = "update_vocab_badge dig word_count content"
  let ?c2 = "update_streak_badge dig streak ?c1"
  from vocab_step_fixed[OF assms(1,2), of content]
  have v1: "re_search dig vocab_pattern ?c1"
    and f1: "re_sub dig vocab_pattern (vocab_badge_markdown word_count) ?c1 = ?c1" by simp_all
  from streak_step_fixed[OF assms v1 f1]
  have v2: "re_search dig vocab_pattern ?c2"
    and f2: "re_sub dig vocab_pattern (vocab_badge_markdown word_count) ?c2 = ?c2"
    and s2: "re_search dig streak_pattern ?c2"
    and g2: "re_sub dig streak_pattern (streak_badge_markdown streak) ?c2 = ?c2" by simp_all
  have "update_vocab_badge dig word_count ?c2 = ?c2" using v2 f2 by (simp add: update_vocab_badge_def)
  moreover have "update_streak_badge dig streak ?c2 = ?c2" using s2 g2 by (simp add: update_streak_badge_def)
  ultimately show ?thesis by (simp add: update_readme_badge_def)
qed

theorem update_readme_badge_idempotent_witness:
  "digits_on_ascii ascii_digit \<and> (0 :: int) \<le> 150 \<and> (0 :: int) \<le> 3
   \<and> update_readme_badge ascii_digit 150 3 (update_readme_badge ascii_digit 150 3 (u ''# Hi''))
       = update_readme_badge ascii_digit 150 3 (u ''# Hi'')"
proof -
  have a: "(0 :: int) \<le> 150" and b: "(0 :: int) \<le> 3" by simp_all
  from update_readme_badge_idempotent[OF ascii_digit_class a b, of "u ''# Hi''"] ascii_digit_class a b
  show ?thesis by blast
qed

text \<open>
  The claim as stated fails for a negative value: the badge written for \<open>-1\<close> is not
  matched by the pattern (\<open>\d+\<close> does not match the sign), so the second run on the
  output of the first inserts the vocabulary badge again.
\<close>

theorem negative_count_counterexample:
  "update_readme_badge ascii_digit (- 1) 0 []
     = [10, 10] @ vocab_badge_markdown (- 1) @ [10] @ streak_badge_markdown 0
   \<and> update_readme_badge ascii_digit (- 1) 0
        ([10, 10] @ vocab_badge_markdown (- 1) @ [10] @ streak_badge_markdown 0)
     = [10, 10] @ vocab_badge_markdown (- 1) @ [10, 10] @ vocab_badge_markdown (- 1) @ [10]
         @ streak_badge_markdown 0
   \<and> update_readme_badge ascii_digit (- 1) 0 (update_readme_badge ascii_digit (- 1) 0 [])
     \<noteq> update_readme_badge ascii_digit (- 1) 0 []"
proof -
  have 1: "update_readme_badge ascii_digit (- 1) 0 []
     = [10, 10] @ vocab_badge_markdown (- 1) @ [10] @ streak_badge_markdown 0"
    by (simp add: update_readme_badge_def update_vocab_badge_def update_streak_badge_def
        re_match_def vocab_pattern_def streak_pattern_def zh_vocabulary_def
        vocab_badge_markdown_def streak_badge_markdown_def py_str_int_def digits_of.simps u_def
        py_insert_def ascii_digit_def sublist_code re_sub.simps)
  have 2: "update_readme_badge ascii_digit (- 1) 0
        ([10, 10] @ vocab_badge_markdown (- 1) @ [10] @ streak_badge_markdown 0)
     = [10, 10] @ vocab_badge_markdown (- 1) @ [10, 10] @ vocab_badge_markdown (- 1) @ [10]
         @ streak_badge_markdown 0"
    by (simp add: update_readme_badge_def update_vocab_badge_def update_streak_badge_def
        re_match_def vocab_pattern_def streak_pattern_def zh_vocabulary_def
        vocab_badge_markdown_def streak_badge_markdown_def py_str_int_def digits_of.simps u_def
        py_insert_def ascii_digit_def sublist_code re_sub.simps)
  have 3: "[10, 10] @ vocab_badge_markdown (- 1) @ [10, 10] @ vocab_badge_markdown (- 1) @ [10]
         @ streak_badge_markdown 0
       \<noteq> [10, 10] @ vocab_badge_markdown (- 1) @ [10] @ streak_badge_markdown 0"
    by (simp add: vocab_badge_markdown_def streak_badge_markdown_def u_def)
  from 1 2 3 show ?thesis by simp
qed

end
